theory Spec2Isabelle
  imports Main
begin

section \<open>Python values shared by the three engines\<close>

text \<open>
  The engines are the classes \<open>ClockMMU\<close> (clockmmu.py), \<open>LruMMU\<close> (PythonP2/lrummu.py)
  and \<open>RandMMU\<close> (randmmu.py).  Page numbers, frame indices and counters are Python
  integers (\<open>int\<close>), a frame array is a list, the page table is a dictionary (a map).
  An exception is a value \<open>Inl e\<close>; a loop that does not return is \<open>None\<close>.
  The \<open>debug\<close> flag only guards \<open>print\<close> calls and is left out of the state.
  PythonP2/clockmmu.py is clockmmu.py without its comments and with another spelling in
  one debug line; one model serves both.
\<close>

datatype error = IndexError | KeyError | ZeroDivisionError | ValueError

text \<open>One call of \<open>read_memory(page)\<close> or \<open>write_memory(page)\<close>.\<close>

datatype access = Read int | Write int

fun access_page :: "access \<Rightarrow> int" where
  "access_page (Read p) = p"
| "access_page (Write p) = p"

fun access_is_write :: "access \<Rightarrow> bool" where
  "access_is_write (Read p) = False"
| "access_is_write (Write p) = True"

text \<open>The position that a Python index denotes in a list: indices from \<open>-len(xs)\<close> to
  \<open>-1\<close> count from the end, anything outside \<open>-len(xs) .. len(xs) - 1\<close> is out of range.\<close>

definition py_index :: "'a list \<Rightarrow> int \<Rightarrow> nat option" where
  "py_index xs i =
     (if 0 \<le> i \<and> i < int (length xs) then Some (nat i)
      else if i < 0 \<and> - int (length xs) \<le> i then Some (nat (int (length xs) + i))
      else None)"

text \<open>\<open>xs[i]\<close> and \<open>xs[i] = v\<close>; both raise IndexError out of range.\<close>

definition list_get :: "'a list \<Rightarrow> int \<Rightarrow> error + 'a" where
  "list_get xs i = (case py_index xs i of None \<Rightarrow> Inl IndexError | Some k \<Rightarrow> Inr (xs ! k))"

definition list_set :: "'a list \<Rightarrow> int \<Rightarrow> 'a \<Rightarrow> error + 'a list" where
  "list_set xs i v =
     (case py_index xs i of None \<Rightarrow> Inl IndexError | Some k \<Rightarrow> Inr (xs[k := v]))"

text \<open>\<open>[v] * n\<close> (empty when \<open>n \<le> 0\<close>) and \<open>range(n)\<close>.\<close>

definition py_repeat :: "'a \<Rightarrow> int \<Rightarrow> 'a list" where
  "py_repeat v n = replicate (nat n) v"

definition py_range :: "int \<Rightarrow> int list" where
  "py_range n = map int [0..<nat n]"

text \<open>\<open>del d[k]\<close> raises KeyError when the key is absent.\<close>

definition dict_del :: "('k \<rightharpoonup> 'v) \<Rightarrow> 'k \<Rightarrow> error + ('k \<rightharpoonup> 'v)" where
  "dict_del d k = (case d k of None \<Rightarrow> Inl KeyError | Some v \<Rightarrow> Inr (d(k := None)))"

text \<open>Sequencing of calls that may raise.\<close>

definition ebind :: "error + 'a \<Rightarrow> ('a \<Rightarrow> error + 'b) \<Rightarrow> error + 'b" where
  "ebind m f = (case m of Inl e \<Rightarrow> Inl e | Inr x \<Rightarrow> f x)"

section \<open>The Clock engine (clockmmu.py)\<close>

record clock_mmu =
  c_frames_capacity :: int
  c_page_faults :: int
  c_disk_reads :: int
  c_disk_writes :: int
  c_frame_page :: "int option list"
  c_dirty :: "bool list"
  c_ref :: "int list"
  c_page_to_frame :: "int \<rightharpoonup> int"
  c_hand :: int

text \<open>\<open>ClockMMU.__init__\<close>: no statement of the constructor raises.\<close>

definition clock_init :: "int \<Rightarrow> error + clock_mmu" where
  "clock_init frames = Inr \<lparr>
     c_frames_capacity = frames,
     c_page_faults = 0, c_disk_reads = 0, c_disk_writes = 0,
     c_frame_page = py_repeat None frames,
     c_dirty = py_repeat False frames,
     c_ref = py_repeat 0 frames,
     c_page_to_frame = Map.empty,
     c_hand = 0 \<rparr>"

text \<open>\<open>_find_free_frame\<close>: the first index of \<open>range(frames_capacity)\<close> whose frame is None.\<close>

fun find_free_scan :: "int option list \<Rightarrow> int list \<Rightarrow> error + int option" where
  "find_free_scan fp [] = Inr None"
| "find_free_scan fp (i # is) =
     (case list_get fp i of
        Inl e \<Rightarrow> Inl e
      | Inr None \<Rightarrow> Inr (Some i)
      | Inr (Some p) \<Rightarrow> find_free_scan fp is)"

definition find_free_frame :: "clock_mmu \<Rightarrow> error + int option" where
  "find_free_frame s = find_free_scan (c_frame_page s) (py_range (c_frames_capacity s))"

text \<open>\<open>_install\<close>.\<close>

definition install :: "clock_mmu \<Rightarrow> int \<Rightarrow> int \<Rightarrow> bool \<Rightarrow> error + clock_mmu" where
  "install s frame_idx page is_write =
     ebind (list_set (c_frame_page s) frame_idx (Some page)) (\<lambda>fp.
     ebind (list_set (c_dirty s) frame_idx is_write) (\<lambda>d.
     ebind (list_set (c_ref s) frame_idx 1) (\<lambda>r.
       Inr (s\<lparr>c_frame_page := fp,
               c_page_to_frame := (c_page_to_frame s)(page \<mapsto> frame_idx),
               c_dirty := d, c_ref := r\<rparr>))))"

text \<open>\<open>_advance_hand\<close>: Python's \<open>%\<close> raises on a zero divisor and otherwise takes the
  sign of the divisor, as \<open>mod\<close> on \<open>int\<close> does.\<close>

definition advance_hand :: "clock_mmu \<Rightarrow> error + clock_mmu" where
  "advance_hand s =
     (if c_frames_capacity s = 0 then Inl ZeroDivisionError
      else Inr (s\<lparr>c_hand := (c_hand s + 1) mod c_frames_capacity s\<rparr>))"

text \<open>The branch of \<open>_evict_clock\<close> taken at an occupied frame whose reference bit is 0:
  write back if dirty, drop the mapping, clear the frame, advance the hand, return the frame.\<close>

definition evict_victim :: "clock_mmu \<Rightarrow> int \<Rightarrow> error + (int \<times> clock_mmu)" where
  "evict_victim s victim_page =
     (let victim_frame = c_hand s in
      ebind (list_get (c_dirty s) victim_frame) (\<lambda>d.
      let s1 = (if d then s\<lparr>c_disk_writes := c_disk_writes s + 1\<rparr> else s) in
      ebind (dict_del (c_page_to_frame s1) victim_page) (\<lambda>m.
      ebind (list_set (c_frame_page s1) victim_frame None) (\<lambda>fp.
      ebind (list_set (c_dirty s1) victim_frame False) (\<lambda>dl.
      ebind (advance_hand (s1\<lparr>c_page_to_frame := m, c_frame_page := fp, c_dirty := dl\<rparr>)) (\<lambda>s2.
        Inr (victim_frame, s2)))))))"

text \<open>The \<open>while True\<close> loop of \<open>_evict_clock\<close>.  The second argument counts the frames
  inspected so far (one per iteration); it is not part of the program's state.\<close>

partial_function (option) evict_sweep ::
    "clock_mmu \<Rightarrow> nat \<Rightarrow> (error + (int \<times> nat \<times> clock_mmu)) option" where
  "evict_sweep s n =
     (case list_get (c_frame_page s) (c_hand s) of
        Inl e \<Rightarrow> Some (Inl e)
      | Inr None \<Rightarrow>
          (case advance_hand s of
             Inl e \<Rightarrow> Some (Inl e)
           | Inr s' \<Rightarrow> evict_sweep s' (Suc n))
      | Inr (Some victim_page) \<Rightarrow>
          (case list_get (c_ref s) (c_hand s) of
             Inl e \<Rightarrow> Some (Inl e)
           | Inr r \<Rightarrow>
               if r = 0 then
                 (case evict_victim s victim_page of
                    Inl e \<Rightarrow> Some (Inl e)
                  | Inr (v, s') \<Rightarrow> Some (Inr (v, Suc n, s')))
               else
                 (case list_set (c_ref s) (c_hand s) 0 of
                    Inl e \<Rightarrow> Some (Inl e)
                  | Inr rf \<Rightarrow>
                      (case advance_hand (s\<lparr>c_ref := rf\<rparr>) of
                         Inl e \<Rightarrow> Some (Inl e)
                       | Inr s' \<Rightarrow> evict_sweep s' (Suc n)))))"

declare evict_sweep.simps [code]

definition evict_clock :: "clock_mmu \<Rightarrow> (error + (int \<times> clock_mmu)) option" where
  "evict_clock s =
     (case evict_sweep s 0 of
        None \<Rightarrow> None
      | Some (Inl e) \<Rightarrow> Some (Inl e)
      | Some (Inr (v, n, s')) \<Rightarrow> Some (Inr (v, s')))"

text \<open>\<open>_access\<close>: hit, fault with a free frame, fault with eviction.\<close>

definition clock_access :: "clock_mmu \<Rightarrow> int \<Rightarrow> bool \<Rightarrow> (error + clock_mmu) option" where
  "clock_access s page is_write =
     (case c_page_to_frame s page of
        Some frame \<Rightarrow>
          Some (ebind (if is_write then list_set (c_dirty s) frame True else Inr (c_dirty s)) (\<lambda>d.
                ebind (list_set (c_ref s) frame 1) (\<lambda>r.
                  Inr (s\<lparr>c_dirty := d, c_ref := r\<rparr>))))
      | None \<Rightarrow>
          (let s1 = s\<lparr>c_page_faults := c_page_faults s + 1, c_disk_reads := c_disk_reads s + 1\<rparr> in
           case find_free_frame s1 of
             Inl e \<Rightarrow> Some (Inl e)
           | Inr (Some free_idx) \<Rightarrow> Some (install s1 free_idx page is_write)
           | Inr None \<Rightarrow>
               (case evict_clock s1 of
                  None \<Rightarrow> None
                | Some (Inl e) \<Rightarrow> Some (Inl e)
                | Some (Inr (victim_idx, s2)) \<Rightarrow> Some (install s2 victim_idx page is_write))))"

text \<open>\<open>read_memory\<close> and \<open>write_memory\<close>.\<close>

definition clock_read_memory :: "clock_mmu \<Rightarrow> int \<Rightarrow> (error + clock_mmu) option" where
  "clock_read_memory s page_number = clock_access s page_number False"

definition clock_write_memory :: "clock_mmu \<Rightarrow> int \<Rightarrow> (error + clock_mmu) option" where
  "clock_write_memory s page_number = clock_access s page_number True"

text \<open>The accessors \<open>get_total_disk_reads\<close>, \<open>get_total_disk_writes\<close> and
  \<open>get_total_page_faults\<close> of \<open>ClockMMU\<close>.\<close>

definition clock_get_total_disk_reads :: "clock_mmu \<Rightarrow> int" where
  "clock_get_total_disk_reads s = c_disk_reads s"

definition clock_get_total_disk_writes :: "clock_mmu \<Rightarrow> int" where
  "clock_get_total_disk_writes s = c_disk_writes s"

definition clock_get_total_page_faults :: "clock_mmu \<Rightarrow> int" where
  "clock_get_total_page_faults s = c_page_faults s"

fun clock_step :: "clock_mmu \<Rightarrow> access \<Rightarrow> (error + clock_mmu) option" where
  "clock_step s (Read p) = clock_read_memory s p"
| "clock_step s (Write p) = clock_write_memory s p"

text \<open>A trace of accesses, processed in order; an exception ends the run.\<close>

fun clock_run :: "clock_mmu \<Rightarrow> access list \<Rightarrow> (error + clock_mmu) option" where
  "clock_run s [] = Some (Inr s)"
| "clock_run s (a # as) =
     (case clock_step s a of
        None \<Rightarrow> None
      | Some (Inl e) \<Rightarrow> Some (Inl e)
      | Some (Inr s') \<Rightarrow> clock_run s' as)"

definition clock_trace :: "int \<Rightarrow> access list \<Rightarrow> (error + clock_mmu) option" where
  "clock_trace frames as = (case clock_init frames of Inl e \<Rightarrow> Some (Inl e) | Inr s \<Rightarrow> clock_run s as)"

section \<open>The LRU engine (PythonP2/lrummu.py)\<close>

record lru_mmu =
  l_frames :: int
  l_page_table :: "int \<rightharpoonup> int"
  l_frame_table :: "int option list"
  l_dirty_bits :: "bool list"
  l_access_time :: "int list"
  l_free_frames :: "int list"
  l_current_time :: int
  l_disk_reads :: int
  l_disk_writes :: int
  l_page_faults :: int

text \<open>\<open>LruMMU.__init__\<close>: no statement of the constructor raises.\<close>

definition lru_init :: "int \<Rightarrow> error + lru_mmu" where
  "lru_init frames = Inr \<lparr>
     l_frames = frames,
     l_page_table = Map.empty,
     l_frame_table = py_repeat None frames,
     l_dirty_bits = py_repeat False frames,
     l_access_time = py_repeat 0 frames,
     l_free_frames = py_range frames,
     l_current_time = 0,
     l_disk_reads = 0, l_disk_writes = 0, l_page_faults = 0 \<rparr>"

text \<open>The loop of \<open>_find_lru_victim\<close> over \<open>range(frames)\<close>.  The pair is
  \<open>(oldest_time, lru_frame_index)\<close>; \<open>None\<close> stands for \<open>float('inf')\<close>, which every
  integer stamp is below.\<close>

fun lru_scan ::
    "int option list \<Rightarrow> int list \<Rightarrow> int list \<Rightarrow> int option \<times> int \<Rightarrow> error + (int option \<times> int)" where
  "lru_scan ft at [] (oldest_time, lru_frame_index) = Inr (oldest_time, lru_frame_index)"
| "lru_scan ft at (frame_index # is) (oldest_time, lru_frame_index) =
     (case list_get ft frame_index of
        Inl e \<Rightarrow> Inl e
      | Inr None \<Rightarrow> lru_scan ft at is (oldest_time, lru_frame_index)
      | Inr (Some p) \<Rightarrow>
          (case list_get at frame_index of
             Inl e \<Rightarrow> Inl e
           | Inr t \<Rightarrow>
               if (case oldest_time of None \<Rightarrow> True | Some ot \<Rightarrow> t < ot)
               then lru_scan ft at is (Some t, frame_index)
               else lru_scan ft at is (oldest_time, lru_frame_index)))"

definition find_lru_victim :: "lru_mmu \<Rightarrow> error + int" where
  "find_lru_victim s =
     ebind (lru_scan (l_frame_table s) (l_access_time s) (py_range (l_frames s)) (None, 0))
       (\<lambda>(oldest_time, lru_frame_index). Inr lru_frame_index)"

text \<open>The frame choice of \<open>_handle_page_fault\<close>: the first free frame, or the LRU victim
  with its write-back and the removal of its page (\<open>del\<close> of a page that is None or
  absent raises KeyError).\<close>

definition lru_take_frame :: "lru_mmu \<Rightarrow> error + (int \<times> lru_mmu)" where
  "lru_take_frame s =
     (case l_free_frames s of
        frame_index # rest \<Rightarrow> Inr (frame_index, s\<lparr>l_free_frames := rest\<rparr>)
      | [] \<Rightarrow>
          ebind (find_lru_victim s) (\<lambda>frame_index.
          ebind (list_get (l_frame_table s) frame_index) (\<lambda>old_page.
          ebind (list_get (l_dirty_bits s) frame_index) (\<lambda>d.
          let s1 = (if d then s\<lparr>l_disk_writes := l_disk_writes s + 1\<rparr> else s) in
          ebind (case old_page of
                   None \<Rightarrow> Inl KeyError
                 | Some p \<Rightarrow> dict_del (l_page_table s1) p) (\<lambda>pt.
            Inr (frame_index, s1\<lparr>l_page_table := pt\<rparr>))))))"

text \<open>\<open>_handle_page_fault\<close>.\<close>

definition handle_page_fault :: "lru_mmu \<Rightarrow> int \<Rightarrow> bool \<Rightarrow> error + lru_mmu" where
  "handle_page_fault s page_number is_write =
     (let s1 = s\<lparr>l_page_faults := l_page_faults s + 1,
                 l_disk_reads := l_disk_reads s + 1,
                 l_current_time := l_current_time s + 1\<rparr> in
      ebind (lru_take_frame s1) (\<lambda>(frame_index, s2).
      ebind (list_set (l_frame_table s2) frame_index (Some page_number)) (\<lambda>ft.
      ebind (list_set (l_dirty_bits s2) frame_index is_write) (\<lambda>db.
      ebind (list_set (l_access_time s2) frame_index (l_current_time s2)) (\<lambda>at.
        Inr (s2\<lparr>l_frame_table := ft,
                 l_page_table := (l_page_table s2)(page_number \<mapsto> frame_index),
                 l_dirty_bits := db, l_access_time := at\<rparr>))))))"

text \<open>\<open>read_memory\<close> and \<open>write_memory\<close>.\<close>

definition lru_read_memory :: "lru_mmu \<Rightarrow> int \<Rightarrow> error + lru_mmu" where
  "lru_read_memory s page_number =
     (let s1 = s\<lparr>l_current_time := l_current_time s + 1\<rparr> in
      case l_page_table s1 page_number of
        Some frame_index \<Rightarrow>
          ebind (list_set (l_access_time s1) frame_index (l_current_time s1)) (\<lambda>at.
            Inr (s1\<lparr>l_access_time := at\<rparr>))
      | None \<Rightarrow> handle_page_fault s1 page_number False)"

definition lru_write_memory :: "lru_mmu \<Rightarrow> int \<Rightarrow> error + lru_mmu" where
  "lru_write_memory s page_number =
     (let s1 = s\<lparr>l_current_time := l_current_time s + 1\<rparr> in
      case l_page_table s1 page_number of
        Some frame_index \<Rightarrow>
          ebind (list_set (l_dirty_bits s1) frame_index True) (\<lambda>db.
          ebind (list_set (l_access_time s1) frame_index (l_current_time s1)) (\<lambda>at.
            Inr (s1\<lparr>l_dirty_bits := db, l_access_time := at\<rparr>)))
      | None \<Rightarrow> handle_page_fault s1 page_number True)"

text \<open>The accessors \<open>get_total_disk_reads\<close>, \<open>get_total_disk_writes\<close> and
  \<open>get_total_page_faults\<close> of \<open>LruMMU\<close>.\<close>

definition lru_get_total_disk_reads :: "lru_mmu \<Rightarrow> int" where
  "lru_get_total_disk_reads s = l_disk_reads s"

definition lru_get_total_disk_writes :: "lru_mmu \<Rightarrow> int" where
  "lru_get_total_disk_writes s = l_disk_writes s"

definition lru_get_total_page_faults :: "lru_mmu \<Rightarrow> int" where
  "lru_get_total_page_faults s = l_page_faults s"

fun lru_step :: "lru_mmu \<Rightarrow> access \<Rightarrow> error + lru_mmu" where
  "lru_step s (Read p) = lru_read_memory s p"
| "lru_step s (Write p) = lru_write_memory s p"

fun lru_run :: "lru_mmu \<Rightarrow> access list \<Rightarrow> error + lru_mmu" where
  "lru_run s [] = Inr s"
| "lru_run s (a # as) = (case lru_step s a of Inl e \<Rightarrow> Inl e | Inr s' \<Rightarrow> lru_run s' as)"

definition lru_trace :: "int \<Rightarrow> access list \<Rightarrow> error + lru_mmu" where
  "lru_trace frames as = ebind (lru_init frames) (\<lambda>s. lru_run s as)"

section \<open>The Random engine (randmmu.py)\<close>

text \<open>A frame entry is the dictionary \<open>{"page": p, "dirty": d}\<close>.\<close>

record entry =
  entry_page :: int
  entry_dirty :: bool

text \<open>The state of the module-level generator is the number of draws made so far;
  the generator itself is a parameter \<open>rnd\<close>, the sequence of its raw outputs.\<close>

record rand_mmu =
  r_num_frames :: int
  r_frames :: "entry option list"
  r_page_to_frame :: "int \<rightharpoonup> int"
  r_disk_reads :: int
  r_disk_writes :: int
  r_page_faults :: int
  r_free :: "int list"
  r_draws :: nat

text \<open>\<open>RandMMU.__init__\<close>: no statement of the constructor raises.\<close>

definition rand_init :: "int \<Rightarrow> error + rand_mmu" where
  "rand_init frames = Inr \<lparr>
     r_num_frames = frames,
     r_frames = py_repeat None frames,
     r_page_to_frame = Map.empty,
     r_disk_reads = 0, r_disk_writes = 0, r_page_faults = 0,
     r_free = py_range frames,
     r_draws = 0 \<rparr>"

text \<open>\<open>random.randrange(0, n)\<close>: some value of \<open>range(n)\<close>, ValueError on an empty range.\<close>

definition randrange :: "(nat \<Rightarrow> int) \<Rightarrow> rand_mmu \<Rightarrow> int \<Rightarrow> error + (int \<times> rand_mmu)" where
  "randrange rnd s n =
     (if n \<le> 0 then Inl ValueError
      else Inr (rnd (r_draws s) mod n, s\<lparr>r_draws := Suc (r_draws s)\<rparr>))"

text \<open>The \<open>while self.frames[idx] is None\<close> loop of \<open>_choose_victim\<close>.\<close>

partial_function (option) choose_loop ::
    "(nat \<Rightarrow> int) \<Rightarrow> rand_mmu \<Rightarrow> int \<Rightarrow> (error + (int \<times> rand_mmu)) option" where
  "choose_loop rnd s idx =
     (case list_get (r_frames s) idx of
        Inl e \<Rightarrow> Some (Inl e)
      | Inr (Some en) \<Rightarrow> Some (Inr (idx, s))
      | Inr None \<Rightarrow>
          (case randrange rnd s (r_num_frames s) of
             Inl e \<Rightarrow> Some (Inl e)
           | Inr (idx', s') \<Rightarrow> choose_loop rnd s' idx'))"

declare choose_loop.simps [code]

definition choose_victim :: "(nat \<Rightarrow> int) \<Rightarrow> rand_mmu \<Rightarrow> (error + (int \<times> rand_mmu)) option" where
  "choose_victim rnd s =
     (if r_num_frames s \<le> 1 then Some (Inr (0, s))
      else case randrange rnd s (r_num_frames s) of
             Inl e \<Rightarrow> Some (Inl e)
           | Inr (idx, s') \<Rightarrow> choose_loop rnd s' idx)"

text \<open>\<open>_evict\<close>.\<close>

definition rand_evict :: "rand_mmu \<Rightarrow> int \<Rightarrow> error + rand_mmu" where
  "rand_evict s idx =
     ebind (list_get (r_frames s) idx) (\<lambda>ent.
       case ent of
         None \<Rightarrow> Inr s
       | Some en \<Rightarrow>
           (let s1 = (if entry_dirty en then s\<lparr>r_disk_writes := r_disk_writes s + 1\<rparr> else s);
                old_page = entry_page en;
                s2 = (if r_page_to_frame s1 old_page \<noteq> None
                      then s1\<lparr>r_page_to_frame := (r_page_to_frame s1)(old_page := None)\<rparr>
                      else s1)
            in ebind (list_set (r_frames s2) idx None) (\<lambda>fr. Inr (s2\<lparr>r_frames := fr\<rparr>))))"

text \<open>\<open>entry["dirty"] = v\<close> on the entry stored in frame \<open>idx\<close>, when there is one.\<close>

definition set_entry_dirty :: "rand_mmu \<Rightarrow> int \<Rightarrow> (bool \<Rightarrow> bool) \<Rightarrow> error + rand_mmu" where
  "set_entry_dirty s idx f =
     ebind (list_get (r_frames s) idx) (\<lambda>ent.
       case ent of
         None \<Rightarrow> Inr s
       | Some en \<Rightarrow>
           ebind (list_set (r_frames s) idx (Some (en\<lparr>entry_dirty := f (entry_dirty en)\<rparr>)))
             (\<lambda>fr. Inr (s\<lparr>r_frames := fr\<rparr>)))"

text \<open>The frame choice of \<open>_access\<close> on a fault: the head of the free list, or a victim
  that is then evicted.\<close>

definition rand_take_frame ::
    "(nat \<Rightarrow> int) \<Rightarrow> rand_mmu \<Rightarrow> (error + (int \<times> rand_mmu)) option" where
  "rand_take_frame rnd s =
     (case r_free s of
        idx # rest \<Rightarrow> Some (Inr (idx, s\<lparr>r_free := rest\<rparr>))
      | [] \<Rightarrow>
          (case choose_victim rnd s of
             None \<Rightarrow> None
           | Some (Inl e) \<Rightarrow> Some (Inl e)
           | Some (Inr (idx, s1)) \<Rightarrow> Some (ebind (rand_evict s1 idx) (\<lambda>s2. Inr (idx, s2)))))"

text \<open>\<open>_access\<close>.\<close>

definition rand_access ::
    "(nat \<Rightarrow> int) \<Rightarrow> rand_mmu \<Rightarrow> int \<Rightarrow> bool \<Rightarrow> (error + rand_mmu) option" where
  "rand_access rnd s page is_write =
     (case r_page_to_frame s page of
        Some idx \<Rightarrow>
          Some (set_entry_dirty s idx (\<lambda>d. if is_write then True else d))
      | None \<Rightarrow>
          (case rand_take_frame rnd (s\<lparr>r_page_faults := r_page_faults s + 1\<rparr>) of
             None \<Rightarrow> None
           | Some (Inl e) \<Rightarrow> Some (Inl e)
           | Some (Inr (idx, s1)) \<Rightarrow>
               Some (let s2 = s1\<lparr>r_disk_reads := r_disk_reads s1 + 1\<rparr> in
                     ebind (list_set (r_frames s2) idx
                              (Some \<lparr>entry_page = page, entry_dirty = is_write\<rparr>)) (\<lambda>fr.
                     let s3 = s2\<lparr>r_frames := fr,
                                 r_page_to_frame := (r_page_to_frame s2)(page \<mapsto> idx)\<rparr> in
                     if is_write then set_entry_dirty s3 idx (\<lambda>d. True) else Inr s3))))"

text \<open>\<open>read_memory\<close> and \<open>write_memory\<close>.\<close>

definition rand_read_memory :: "(nat \<Rightarrow> int) \<Rightarrow> rand_mmu \<Rightarrow> int \<Rightarrow> (error + rand_mmu) option" where
  "rand_read_memory rnd s page_number = rand_access rnd s page_number False"

definition rand_write_memory :: "(nat \<Rightarrow> int) \<Rightarrow> rand_mmu \<Rightarrow> int \<Rightarrow> (error + rand_mmu) option" where
  "rand_write_memory rnd s page_number = rand_access rnd s page_number True"

text \<open>The accessors \<open>get_total_disk_reads\<close>, \<open>get_total_disk_writes\<close> and
  \<open>get_total_page_faults\<close> of \<open>RandMMU\<close>.\<close>

definition rand_get_total_disk_reads :: "rand_mmu \<Rightarrow> int" where
  "rand_get_total_disk_reads s = r_disk_reads s"

definition rand_get_total_disk_writes :: "rand_mmu \<Rightarrow> int" where
  "rand_get_total_disk_writes s = r_disk_writes s"

definition rand_get_total_page_faults :: "rand_mmu \<Rightarrow> int" where
  "rand_get_total_page_faults s = r_page_faults s"

fun rand_step :: "(nat \<Rightarrow> int) \<Rightarrow> rand_mmu \<Rightarrow> access \<Rightarrow> (error + rand_mmu) option" where
  "rand_step rnd s (Read p) = rand_read_memory rnd s p"
| "rand_step rnd s (Write p) = rand_write_memory rnd s p"

fun rand_run :: "(nat \<Rightarrow> int) \<Rightarrow> rand_mmu \<Rightarrow> access list \<Rightarrow> (error + rand_mmu) option" where
  "rand_run rnd s [] = Some (Inr s)"
| "rand_run rnd s (a # as) =
     (case rand_step rnd s a of
        None \<Rightarrow> None
      | Some (Inl e) \<Rightarrow> Some (Inl e)
      | Some (Inr s') \<Rightarrow> rand_run rnd s' as)"

definition rand_trace :: "(nat \<Rightarrow> int) \<Rightarrow> int \<Rightarrow> access list \<Rightarrow> (error + rand_mmu) option" where
  "rand_trace rnd frames as =
     (case rand_init frames of Inl e \<Rightarrow> Some (Inl e) | Inr s \<Rightarrow> rand_run rnd s as)"

section \<open>Invariants of the reachable states\<close>

text \<open>The number of occupied frames of a frame array.\<close>

definition occupied :: "'a option list \<Rightarrow> nat" where
  "occupied fp = length (filter (\<lambda>x. x \<noteq> None) fp)"

text \<open>The page table and the frame array describe the same residency: every occupied
  frame's page maps back to that frame, and every mapped page sits in the frame it maps to.\<close>

definition resident_ok :: "int option list \<Rightarrow> (int \<rightharpoonup> int) \<Rightarrow> bool" where
  "resident_ok fp m \<longleftrightarrow>
     (\<forall>i p. i < length fp \<longrightarrow> fp ! i = Some p \<longrightarrow> m p = Some (int i)) \<and>
     (\<forall>p f. m p = Some f \<longrightarrow> 0 \<le> f \<and> f < int (length fp) \<and> fp ! nat f = Some p)"

text \<open>The free list holds exactly the indices of the empty frames, each once.\<close>

definition free_ok :: "'a option list \<Rightarrow> int list \<Rightarrow> bool" where
  "free_ok fp free \<longleftrightarrow>
     distinct free \<and>
     set free = {i. 0 \<le> i \<and> i < int (length fp) \<and> fp ! nat i = None}"

definition clock_inv :: "clock_mmu \<Rightarrow> bool" where
  "clock_inv s \<longleftrightarrow>
     1 \<le> c_frames_capacity s \<and>
     length (c_frame_page s) = nat (c_frames_capacity s) \<and>
     length (c_dirty s) = nat (c_frames_capacity s) \<and>
     length (c_ref s) = nat (c_frames_capacity s) \<and>
     0 \<le> c_hand s \<and> c_hand s < c_frames_capacity s \<and>
     resident_ok (c_frame_page s) (c_page_to_frame s)"

text \<open>What one eviction by the sweep does to the state \<open>s\<close>, with victim frame \<open>v\<close>.\<close>

definition evicted :: "clock_mmu \<Rightarrow> int \<Rightarrow> clock_mmu \<Rightarrow> bool" where
  "evicted s v s' \<longleftrightarrow>
     0 \<le> v \<and> v < c_frames_capacity s \<and>
     (\<exists>p. c_frame_page s ! nat v = Some p \<and> c_page_to_frame s' = (c_page_to_frame s)(p := None)) \<and>
     c_frame_page s' = (c_frame_page s)[nat v := None] \<and>
     c_dirty s' = (c_dirty s)[nat v := False] \<and>
     length (c_ref s') = length (c_ref s) \<and> c_ref s' ! nat v = 0 \<and>
     c_frames_capacity s' = c_frames_capacity s \<and>
     c_page_faults s' = c_page_faults s \<and> c_disk_reads s' = c_disk_reads s \<and>
     c_disk_writes s' = c_disk_writes s + (if c_dirty s ! nat v then 1 else 0) \<and>
     0 \<le> c_hand s' \<and> c_hand s' < c_frames_capacity s"

text \<open>The number of reference bits that are set: the measure of the sweep.\<close>

definition nonzero_refs :: "int list \<Rightarrow> nat" where
  "nonzero_refs r = length (filter (\<lambda>x. x \<noteq> 0) r)"

definition lru_inv :: "lru_mmu \<Rightarrow> bool" where
  "lru_inv s \<longleftrightarrow>
     1 \<le> l_frames s \<and>
     length (l_frame_table s) = nat (l_frames s) \<and>
     length (l_dirty_bits s) = nat (l_frames s) \<and>
     length (l_access_time s) = nat (l_frames s) \<and>
     resident_ok (l_frame_table s) (l_page_table s) \<and>
     free_ok (l_frame_table s) (l_free_frames s)"

text \<open>Frame \<open>v\<close> is the least recently used of the first \<open>n\<close> frames: occupied, with the
  least stamp among the occupied ones, and the first such frame.\<close>

definition lru_least :: "int option list \<Rightarrow> int list \<Rightarrow> nat \<Rightarrow> nat \<Rightarrow> bool" where
  "lru_least ft at n v \<longleftrightarrow>
     v < n \<and> ft ! v \<noteq> None \<and>
     (\<forall>i<n. ft ! i \<noteq> None \<longrightarrow> at ! v \<le> at ! i) \<and>
     (\<forall>i<v. ft ! i \<noteq> None \<longrightarrow> at ! v < at ! i)"

text \<open>The pages held by the frames of the Random engine.\<close>

definition rand_pages :: "entry option list \<Rightarrow> int option list" where
  "rand_pages fr = map (map_option entry_page) fr"

definition rand_inv :: "rand_mmu \<Rightarrow> bool" where
  "rand_inv s \<longleftrightarrow>
     1 \<le> r_num_frames s \<and>
     length (r_frames s) = nat (r_num_frames s) \<and>
     resident_ok (rand_pages (r_frames s)) (r_page_to_frame s) \<and>
     free_ok (r_frames s) (r_free s)"

section \<open>Basic facts about the Python operations\<close>

lemma list_get_in [simp]:
  "0 \<le> i \<Longrightarrow> i < int (length xs) \<Longrightarrow> list_get xs i = Inr (xs ! nat i)"
  by (simp add: list_get_def py_index_def)

lemma list_set_in [simp]:
  "0 \<le> i \<Longrightarrow> i < int (length xs) \<Longrightarrow> list_set xs i v = Inr (xs[nat i := v])"
  by (simp add: list_set_def py_index_def)

lemma list_get_Nil [simp]: "list_get [] i = Inl IndexError"
  by (simp add: list_get_def py_index_def)

lemma ebind_Inr [simp]: "ebind (Inr x) f = f x"
  by (simp add: ebind_def)

lemma ebind_Inl [simp]: "ebind (Inl e) f = Inl e"
  by (simp add: ebind_def)

lemma py_range_set: "i \<in> set (py_range n) \<longleftrightarrow> 0 \<le> i \<and> i < n"
  by (auto simp: py_range_def image_iff intro: bexI [of _ "nat i"])

lemma py_range_distinct: "distinct (py_range n)"
  by (simp add: py_range_def distinct_map inj_on_def)

lemma py_range_nonpos [simp]: "n \<le> 0 \<Longrightarrow> py_range n = []"
  by (simp add: py_range_def)

lemma py_repeat_nonpos [simp]: "n \<le> 0 \<Longrightarrow> py_repeat v n = []"
  by (simp add: py_repeat_def)

section \<open>Occupancy and residency\<close>

lemma occupied_card: "occupied fp = card {i. i < length fp \<and> fp ! i \<noteq> None}"
  by (simp add: occupied_def length_filter_conv_card)

lemma occupied_le_length: "occupied fp \<le> length fp"
  by (simp add: occupied_def)

lemma occupied_mono:
  assumes "length fp' = length fp" "\<forall>i<length fp. fp ! i \<noteq> None \<longrightarrow> fp' ! i \<noteq> None"
  shows "occupied fp \<le> occupied fp'"
proof -
  have "{i. i < length fp \<and> fp ! i \<noteq> None} \<subseteq> {i. i < length fp' \<and> fp' ! i \<noteq> None}"
    using assms by auto
  then show ?thesis
    unfolding occupied_card by (intro card_mono) auto
qed

lemma length_filter_all: "length (filter P xs) = length xs \<longleftrightarrow> (\<forall>x\<in>set xs. P x)"
proof (induction xs)
  case Nil
  show ?case by simp
next
  case (Cons x xs)
  have "length (filter P xs) \<noteq> Suc (length xs)"
    using length_filter_le [of P xs] by arith
  with Cons show ?case by auto
qed

lemma occupied_full:
  "occupied fp = length fp \<longleftrightarrow> (\<forall>i<length fp. fp ! i \<noteq> None)"
  unfolding occupied_def length_filter_all all_set_conv_all_nth ..

lemma resident_ok_frame:
  assumes "resident_ok fp m" "0 \<le> f" "f < int (length fp)" "fp ! nat f = Some p"
  shows "m p = Some f"
proof -
  have "nat f < length fp" using assms(2,3) by simp
  with assms(1,4) have "m p = Some (int (nat f))"
    unfolding resident_ok_def by blast
  then show ?thesis using assms(2) by simp
qed

lemma resident_ok_map:
  "resident_ok fp m \<Longrightarrow> m p = Some f \<Longrightarrow> 0 \<le> f \<and> f < int (length fp) \<and> fp ! nat f = Some p"
  by (simp add: resident_ok_def)

lemma resident_ok_empty: "resident_ok (replicate n None) Map.empty"
  by (simp add: resident_ok_def)

lemma resident_ok_evict:
  assumes ok: "resident_ok fp m" and v: "0 \<le> v" "v < int (length fp)"
    and p: "fp ! nat v = Some p"
  shows "resident_ok (fp[nat v := None]) (m(p := None))"
proof -
  have vlen: "nat v < length fp" using v by simp
  have fwd: "(m(p := None)) q = Some (int i)"
    if "i < length (fp[nat v := None])" "fp[nat v := None] ! i = Some q" for i q
  proof -
    have i: "i < length fp" "i \<noteq> nat v" "fp ! i = Some q"
      using that vlen by (auto simp: nth_list_update split: if_splits)
    then have q: "m q = Some (int i)"
      using resident_ok_frame [OF ok, of "int i" q] by simp
    have "q \<noteq> p"
    proof
      assume "q = p"
      with q resident_ok_frame [OF ok v p] have "int i = v" by simp
      with i(2) show False by simp
    qed
    with q show ?thesis by simp
  qed
  have bwd: "0 \<le> f \<and> f < int (length (fp[nat v := None])) \<and> fp[nat v := None] ! nat f = Some q"
    if "(m(p := None)) q = Some f" for q f
  proof -
    from that have q: "q \<noteq> p" "m q = Some f"
      by (auto split: if_splits)
    from resident_ok_map [OF ok q(2)] have f: "0 \<le> f" "f < int (length fp)"
      "fp ! nat f = Some q" by auto
    have "nat f \<noteq> nat v"
      using f(3) p q(1) by auto
    with f show ?thesis by simp
  qed
  show ?thesis
    unfolding resident_ok_def using fwd bwd by blast
qed

lemma resident_ok_install:
  assumes ok: "resident_ok fp m" and f: "0 \<le> f" "f < int (length fp)"
    and free: "fp ! nat f = None" and absent: "m page = None"
  shows "resident_ok (fp[nat f := Some page]) (m(page \<mapsto> f))"
proof -
  have flen: "nat f < length fp" using f by simp
  have fwd: "(m(page \<mapsto> f)) q = Some (int i)"
    if "i < length (fp[nat f := Some page])" "fp[nat f := Some page] ! i = Some q" for i q
  proof (cases "i = nat f")
    case True
    with that f flen show ?thesis by simp
  next
    case False
    with that have i: "i < length fp" "fp ! i = Some q" by auto
    then have q: "m q = Some (int i)"
      using resident_ok_frame [OF ok, of "int i" q] by simp
    with absent have "q \<noteq> page" by auto
    with q show ?thesis by simp
  qed
  have bwd: "0 \<le> g \<and> g < int (length (fp[nat f := Some page])) \<and>
             fp[nat f := Some page] ! nat g = Some q"
    if "(m(page \<mapsto> f)) q = Some g" for q g
  proof (cases "q = page")
    case True
    with that f flen show ?thesis by simp
  next
    case False
    with that have "m q = Some g" by simp
    from resident_ok_map [OF ok this] have g: "0 \<le> g" "g < int (length fp)"
      "fp ! nat g = Some q" by auto
    with free have "nat g \<noteq> nat f" by auto
    with g show ?thesis by simp
  qed
  show ?thesis
    unfolding resident_ok_def using fwd bwd by blast
qed

lemma resident_ok_replace:
  assumes ok: "resident_ok fp m" and v: "0 \<le> v" "v < int (length fp)"
    and p: "fp ! nat v = Some p" and absent: "m page = None"
  shows "resident_ok (fp[nat v := Some page]) ((m(p := None))(page \<mapsto> v))"
proof -
  have "resident_ok ((fp[nat v := None])[nat v := Some page]) ((m(p := None))(page \<mapsto> v))"
    using resident_ok_evict [OF ok v p] v absent
    by (intro resident_ok_install) auto
  then show ?thesis by simp
qed

lemma resident_ok_dom:
  assumes ok: "resident_ok fp m"
  shows "finite (dom m)" and "card (dom m) = occupied fp"
proof -
  let ?I = "{i. i < length fp \<and> fp ! i \<noteq> None}"
  have dom: "dom m = (\<lambda>i. the (fp ! i)) ` ?I"
  proof (intro set_eqI iffI)
    fix p assume "p \<in> dom m"
    then obtain f where "m p = Some f" by auto
    from resident_ok_map [OF ok this] have "nat f < length fp" "fp ! nat f = Some p" by auto
    then show "p \<in> (\<lambda>i. the (fp ! i)) ` ?I"
      by (intro image_eqI [where x = "nat f"]) auto
  next
    fix p assume "p \<in> (\<lambda>i. the (fp ! i)) ` ?I"
    then obtain i where i: "i < length fp" "fp ! i = Some p" by auto
    then have "m p = Some (int i)"
      using resident_ok_frame [OF ok, of "int i" p] by simp
    then show "p \<in> dom m" by auto
  qed
  have inj: "inj_on (\<lambda>i. the (fp ! i)) ?I"
  proof (rule inj_onI)
    fix i j assume "i \<in> ?I" "j \<in> ?I" and eq: "the (fp ! i) = the (fp ! j)"
    then obtain p q where i: "i < length fp" "fp ! i = Some p" and j: "j < length fp" "fp ! j = Some q"
      by auto
    with eq have "p = q" by simp
    moreover have "m p = Some (int i)"
      using resident_ok_frame [OF ok, of "int i" p] i by simp
    moreover have "m q = Some (int j)"
      using resident_ok_frame [OF ok, of "int j" q] j by simp
    ultimately show "i = j" by simp
  qed
  show "finite (dom m)" unfolding dom by simp
  show "card (dom m) = occupied fp"
    unfolding dom occupied_card by (rule card_image [OF inj])
qed

lemma free_ok_init: "free_ok (replicate (nat n) None) (py_range n)"
  by (auto simp: free_ok_def py_range_distinct py_range_set)

lemma free_ok_take:
  assumes "free_ok fp (f # rest)"
  shows "0 \<le> f" "f < int (length fp)" "fp ! nat f = None" "free_ok (fp[nat f := Some x]) rest"
proof -
  from assms have d: "f \<notin> set rest" "distinct rest"
    and st: "insert f (set rest) = {i. 0 \<le> i \<and> i < int (length fp) \<and> fp ! nat i = None}"
    by (auto simp: free_ok_def)
  from st show f: "0 \<le> f" "f < int (length fp)" "fp ! nat f = None" by auto
  have "set rest = {i. 0 \<le> i \<and> i < int (length fp) \<and> (fp[nat f := Some x]) ! nat i = None}"
  proof (intro set_eqI iffI)
    fix i assume i: "i \<in> set rest"
    with d(1) have "i \<noteq> f" by auto
    moreover from i st have "0 \<le> i" "i < int (length fp)" "fp ! nat i = None" by auto
    ultimately show "i \<in> {i. 0 \<le> i \<and> i < int (length fp) \<and> (fp[nat f := Some x]) ! nat i = None}"
      using f by (simp add: nth_list_update)
  next
    fix i assume "i \<in> {i. 0 \<le> i \<and> i < int (length fp) \<and> (fp[nat f := Some x]) ! nat i = None}"
    then have i: "0 \<le> i" "i < int (length fp)" "(fp[nat f := Some x]) ! nat i = None" by auto
    with f have "i \<noteq> f" by (auto simp: nth_list_update)
    with i f have "fp ! nat i = None" by (simp add: nth_list_update split: if_splits)
    with i st have "i \<in> insert f (set rest)" by auto
    with \<open>i \<noteq> f\<close> show "i \<in> set rest" by simp
  qed
  with d(2) show "free_ok (fp[nat f := Some x]) rest"
    by (simp add: free_ok_def)
qed

lemma free_ok_Nil: "free_ok fp [] \<Longrightarrow> i < length fp \<Longrightarrow> fp ! i \<noteq> None"
proof
  assume a: "free_ok fp []" "i < length fp" "fp ! i = None"
  then have "int i \<in> {i. 0 \<le> i \<and> i < int (length fp) \<and> fp ! nat i = None}" by simp
  with a(1) show False unfolding free_ok_def by (metis empty_iff empty_set)
qed

lemma free_ok_update_occupied:
  assumes "free_ok fp free" "0 \<le> f" "f < int (length fp)" "fp ! nat f \<noteq> None"
  shows "free_ok (fp[nat f := Some x]) free"
proof -
  have "(fp[nat f := Some x]) ! nat i = None \<longleftrightarrow> fp ! nat i = None"
    if "0 \<le> i" "i < int (length fp)" for i
    using that assms(2-4) by (cases "nat i = nat f") (auto simp: nth_list_update)
  then show ?thesis
    using assms(1) unfolding free_ok_def by auto
qed

section \<open>The Clock engine: the invariant and the sweep\<close>

lemma nonzero_refs_clear:
  "i < length r \<Longrightarrow> r ! i \<noteq> 0 \<Longrightarrow> Suc (nonzero_refs (r[i := 0])) = nonzero_refs r"
proof (induction r arbitrary: i)
  case Nil
  then show ?case by simp
next
  case (Cons x r)
  then show ?case by (cases i) (auto simp: nonzero_refs_def)
qed

lemma nonzero_refs_le: "nonzero_refs r \<le> length r"
  by (simp add: nonzero_refs_def)

lemma find_free_scan_None:
  "\<forall>i\<in>set is. 0 \<le> i \<and> i < int (length fp) \<Longrightarrow>
   find_free_scan fp is = Inr None \<longleftrightarrow> (\<forall>i\<in>set is. fp ! nat i \<noteq> None)"
  by (induction "is") (auto split: sum.splits option.splits)

lemma find_free_scan_Some:
  "\<forall>i\<in>set is. 0 \<le> i \<and> i < int (length fp) \<Longrightarrow>
   find_free_scan fp is = Inr (Some f) \<Longrightarrow> f \<in> set is \<and> fp ! nat f = None"
  by (induction "is") (auto split: sum.splits option.splits)

lemma find_free_scan_no_error:
  "\<forall>i\<in>set is. 0 \<le> i \<and> i < int (length fp) \<Longrightarrow> find_free_scan fp is \<noteq> Inl e"
  by (induction "is") (auto split: sum.splits option.splits)

lemma clock_inv_lengths:
  "clock_inv s \<Longrightarrow> 1 \<le> c_frames_capacity s \<and>
     int (length (c_frame_page s)) = c_frames_capacity s \<and>
     int (length (c_dirty s)) = c_frames_capacity s \<and>
     int (length (c_ref s)) = c_frames_capacity s \<and>
     0 \<le> c_hand s \<and> c_hand s < c_frames_capacity s"
  by (simp add: clock_inv_def)

lemma clock_inv_nat:
  "clock_inv s \<Longrightarrow> 0 \<le> f \<Longrightarrow> f < c_frames_capacity s \<Longrightarrow>
   nat f < length (c_frame_page s) \<and> nat f < length (c_dirty s) \<and> nat f < length (c_ref s)"
  by (simp add: clock_inv_def)

lemma clock_inv_resident: "clock_inv s \<Longrightarrow> resident_ok (c_frame_page s) (c_page_to_frame s)"
  by (simp add: clock_inv_def)

lemma clock_inv_range:
  assumes "clock_inv s"
  shows "\<forall>i\<in>set (py_range (c_frames_capacity s)). 0 \<le> i \<and> i < int (length (c_frame_page s))"
  using clock_inv_lengths [OF assms] by (simp add: py_range_set)

lemma find_free_frame_None:
  assumes "clock_inv s" "find_free_frame s = Inr None" "i < length (c_frame_page s)"
  shows "c_frame_page s ! i \<noteq> None"
proof -
  have "int i \<in> set (py_range (c_frames_capacity s))"
    using clock_inv_lengths [OF assms(1)] assms(3) by (simp add: py_range_set)
  moreover have "\<forall>i\<in>set (py_range (c_frames_capacity s)). c_frame_page s ! nat i \<noteq> None"
    using find_free_scan_None [OF clock_inv_range [OF assms(1)]] assms(2)
    unfolding find_free_frame_def by simp
  ultimately have "c_frame_page s ! nat (int i) \<noteq> None" by blast
  then show ?thesis by simp
qed

lemma find_free_frame_Some:
  assumes "clock_inv s" "find_free_frame s = Inr (Some f)"
  shows "0 \<le> f \<and> f < c_frames_capacity s \<and> c_frame_page s ! nat f = None"
  using find_free_scan_Some [OF clock_inv_range [OF assms(1)]] assms(2)
  unfolding find_free_frame_def by (simp add: py_range_set)

lemma find_free_frame_no_error:
  assumes "clock_inv s"
  shows "find_free_frame s \<noteq> Inl e"
  using find_free_scan_no_error [OF clock_inv_range [OF assms]]
  unfolding find_free_frame_def by simp

lemma evict_victim_ok:
  assumes inv: "clock_inv s"
    and occ: "c_frame_page s ! nat (c_hand s) = Some p"
    and r0: "c_ref s ! nat (c_hand s) = 0"
  shows "\<exists>s'. evict_victim s p = Inr (c_hand s, s') \<and> evicted s (c_hand s) s'"
proof -
  have h: "0 \<le> c_hand s" "c_hand s < c_frames_capacity s" "c_frames_capacity s \<noteq> 0"
    "c_hand s < int (length (c_frame_page s))" "c_hand s < int (length (c_dirty s))"
    using clock_inv_lengths [OF inv] by auto
  have m: "c_page_to_frame s p = Some (c_hand s)"
    using resident_ok_frame [OF clock_inv_resident [OF inv] h(1,4) occ] .
  show ?thesis
    using h m occ r0
    by (simp add: evict_victim_def Let_def dict_del_def advance_hand_def evicted_def)
qed

lemma second_chance_inv:
  assumes inv: "clock_inv s"
  shows "clock_inv (s\<lparr>c_ref := (c_ref s)[nat (c_hand s) := 0],
                      c_hand := (c_hand s + 1) mod c_frames_capacity s\<rparr>)"
  using inv by (simp add: clock_inv_def)

lemma evicted_second_chance:
  assumes "evicted (s\<lparr>c_ref := r, c_hand := h\<rparr>) v s'" "length r = length (c_ref s)"
  shows "evicted s v s'"
  using assms by (simp add: evicted_def)

lemma evict_sweep_total:
  assumes "clock_inv s" "\<forall>i<length (c_frame_page s). c_frame_page s ! i \<noteq> None"
  shows "\<exists>v m s'. evict_sweep s n = Some (Inr (v, m, s')) \<and>
           m \<le> n + nonzero_refs (c_ref s) + 1 \<and> evicted s v s'"
  using assms
proof (induction "nonzero_refs (c_ref s)" arbitrary: s n rule: less_induct)
  case less
  note inv = less.prems(1)
  have h: "0 \<le> c_hand s" "c_hand s < c_frames_capacity s" "c_frames_capacity s \<noteq> 0"
    "c_hand s < int (length (c_frame_page s))" "c_hand s < int (length (c_ref s))"
    using clock_inv_lengths [OF inv] by auto
  then have "nat (c_hand s) < length (c_frame_page s)" by simp
  with less.prems(2) obtain p where occ: "c_frame_page s ! nat (c_hand s) = Some p"
    by blast
  show ?case
  proof (cases "c_ref s ! nat (c_hand s) = 0")
    case True
    from evict_victim_ok [OF inv occ True] obtain s' where
      ev: "evict_victim s p = Inr (c_hand s, s')" "evicted s (c_hand s) s'" by blast
    have "evict_sweep s n = Some (Inr (c_hand s, Suc n, s'))"
      using h occ True ev(1) by (subst evict_sweep.simps) simp
    with ev(2) show ?thesis by simp
  next
    case False
    define s2 where "s2 = s\<lparr>c_ref := (c_ref s)[nat (c_hand s) := 0],
                              c_hand := (c_hand s + 1) mod c_frames_capacity s\<rparr>"
    have inv2: "clock_inv s2"
      unfolding s2_def by (rule second_chance_inv [OF inv])
    have occ2: "\<forall>i<length (c_frame_page s2). c_frame_page s2 ! i \<noteq> None"
      using less.prems(2) by (simp add: s2_def)
    have dec: "Suc (nonzero_refs (c_ref s2)) = nonzero_refs (c_ref s)"
      using nonzero_refs_clear [of "nat (c_hand s)" "c_ref s"] h False by (simp add: s2_def)
    then have lt: "nonzero_refs (c_ref s2) < nonzero_refs (c_ref s)" by simp
    from less.hyps [OF lt inv2 occ2, of "Suc n"] obtain v m s' where
      r: "evict_sweep s2 (Suc n) = Some (Inr (v, m, s'))"
         "m \<le> Suc n + nonzero_refs (c_ref s2) + 1" "evicted s2 v s'" by blast
    have step: "evict_sweep s n = evict_sweep s2 (Suc n)"
      using h occ False by (subst evict_sweep.simps) (simp add: advance_hand_def s2_def)
    have "evicted s v s'"
      using r(3) unfolding s2_def by (rule evicted_second_chance) simp
    with r(1,2) step dec show ?thesis by simp
  qed
qed

lemma evicted_inv:
  assumes inv: "clock_inv s" and ev: "evicted s v s'"
  shows "clock_inv s'"
proof -
  from ev obtain p where
    v: "0 \<le> v" "v < c_frames_capacity s" and
    p: "c_frame_page s ! nat v = Some p" and
    m': "c_page_to_frame s' = (c_page_to_frame s)(p := None)" and
    fp': "c_frame_page s' = (c_frame_page s)[nat v := None]" and
    rest: "c_dirty s' = (c_dirty s)[nat v := False]" "length (c_ref s') = length (c_ref s)"
      "c_frames_capacity s' = c_frames_capacity s" "0 \<le> c_hand s'"
      "c_hand s' < c_frames_capacity s"
    unfolding evicted_def by blast
  note len = clock_inv_lengths [OF inv]
  have "resident_ok (c_frame_page s') (c_page_to_frame s')"
    unfolding m' fp'
    using clock_inv_resident [OF inv] v len p by (intro resident_ok_evict) auto
  then show ?thesis
    unfolding clock_inv_def using len rest fp' by auto
qed

lemma install_inv:
  assumes inv: "clock_inv s" and f: "0 \<le> f" "f < c_frames_capacity s"
    and free: "c_frame_page s ! nat f = None" and absent: "c_page_to_frame s page = None"
  shows "install s f page w =
           Inr (s\<lparr>c_frame_page := (c_frame_page s)[nat f := Some page],
                   c_page_to_frame := (c_page_to_frame s)(page \<mapsto> f),
                   c_dirty := (c_dirty s)[nat f := w],
                   c_ref := (c_ref s)[nat f := 1]\<rparr>)"
    and "clock_inv (s\<lparr>c_frame_page := (c_frame_page s)[nat f := Some page],
                   c_page_to_frame := (c_page_to_frame s)(page \<mapsto> f),
                   c_dirty := (c_dirty s)[nat f := w],
                   c_ref := (c_ref s)[nat f := 1]\<rparr>)"
proof -
  note len = clock_inv_lengths [OF inv]
  show "install s f page w =
           Inr (s\<lparr>c_frame_page := (c_frame_page s)[nat f := Some page],
                   c_page_to_frame := (c_page_to_frame s)(page \<mapsto> f),
                   c_dirty := (c_dirty s)[nat f := w],
                   c_ref := (c_ref s)[nat f := 1]\<rparr>)"
    using len f by (simp add: install_def)
  have "resident_ok ((c_frame_page s)[nat f := Some page]) ((c_page_to_frame s)(page \<mapsto> f))"
    using clock_inv_resident [OF inv] f len free absent by (intro resident_ok_install) auto
  then show "clock_inv (s\<lparr>c_frame_page := (c_frame_page s)[nat f := Some page],
                   c_page_to_frame := (c_page_to_frame s)(page \<mapsto> f),
                   c_dirty := (c_dirty s)[nat f := w],
                   c_ref := (c_ref s)[nat f := 1]\<rparr>)"
    using len by (auto simp: clock_inv_def)
qed

lemma clock_init_inv: "1 \<le> frames \<Longrightarrow> clock_init frames = Inr s \<Longrightarrow> clock_inv s"
  by (auto simp: clock_init_def clock_inv_def py_repeat_def resident_ok_empty)

lemma clock_inv_counters:
  "clock_inv (s\<lparr>c_page_faults := a, c_disk_reads := b\<rparr>) = clock_inv s"
  by (simp add: clock_inv_def)

lemma clock_access_hit:
  assumes inv: "clock_inv s" and hit: "c_page_to_frame s page = Some f"
  shows "clock_access s page w =
           Some (Inr (s\<lparr>c_dirty := (if w then (c_dirty s)[nat f := True] else c_dirty s),
                         c_ref := (c_ref s)[nat f := 1]\<rparr>))"
    and "clock_inv (s\<lparr>c_dirty := (if w then (c_dirty s)[nat f := True] else c_dirty s),
                         c_ref := (c_ref s)[nat f := 1]\<rparr>)"
proof -
  note len = clock_inv_lengths [OF inv]
  from resident_ok_map [OF clock_inv_resident [OF inv] hit] len
  have f: "0 \<le> f" "f < c_frames_capacity s" by auto
  show "clock_access s page w =
           Some (Inr (s\<lparr>c_dirty := (if w then (c_dirty s)[nat f := True] else c_dirty s),
                         c_ref := (c_ref s)[nat f := 1]\<rparr>))"
    using hit f len by (simp add: clock_access_def)
  show "clock_inv (s\<lparr>c_dirty := (if w then (c_dirty s)[nat f := True] else c_dirty s),
                         c_ref := (c_ref s)[nat f := 1]\<rparr>)"
    using inv by (simp add: clock_inv_def)
qed

lemma clock_access_fault:
  assumes inv: "clock_inv s" and miss: "c_page_to_frame s page = None"
  shows "\<exists>s' f. clock_access s page w = Some (Inr s') \<and> clock_inv s' \<and>
           0 \<le> f \<and> f < c_frames_capacity s \<and>
           c_frame_page s' = (c_frame_page s)[nat f := Some page] \<and>
           c_page_to_frame s' page = Some f \<and>
           c_page_faults s' = c_page_faults s + 1 \<and>
           c_disk_reads s' = c_disk_reads s + 1 \<and>
           c_frames_capacity s' = c_frames_capacity s"
proof -
  define s1 where "s1 = s\<lparr>c_page_faults := c_page_faults s + 1, c_disk_reads := c_disk_reads s + 1\<rparr>"
  have inv1: "clock_inv s1"
    unfolding s1_def using inv by (simp add: clock_inv_counters)
  have miss1: "c_page_to_frame s1 page = None"
    using miss by (simp add: s1_def)
  have acc: "clock_access s page w =
      (case find_free_frame s1 of
         Inl e \<Rightarrow> Some (Inl e)
       | Inr (Some free_idx) \<Rightarrow> Some (install s1 free_idx page w)
       | Inr None \<Rightarrow>
           (case evict_clock s1 of
              None \<Rightarrow> None
            | Some (Inl e) \<Rightarrow> Some (Inl e)
            | Some (Inr (victim_idx, s2)) \<Rightarrow> Some (install s2 victim_idx page w)))"
    unfolding s1_def using miss by (simp add: clock_access_def Let_def)
  show ?thesis
  proof (cases "find_free_frame s1")
    case (Inl e)
    with find_free_frame_no_error [OF inv1, of e] show ?thesis by simp
  next
    case (Inr r)
    show ?thesis
    proof (cases r)
      case (Some f)
      from find_free_frame_Some [OF inv1] Inr Some
      have f: "0 \<le> f" "f < c_frames_capacity s1" "c_frame_page s1 ! nat f = None"
        by auto
      note flen = clock_inv_nat [OF inv1 f(1,2)]
      from install_inv [OF inv1 f miss1, of w] acc Inr Some f flen
      show ?thesis
        by (intro exI [of _ f] exI) (auto simp: s1_def)
    next
      case None
      have occ: "\<forall>i<length (c_frame_page s1). c_frame_page s1 ! i \<noteq> None"
        using find_free_frame_None [OF inv1] Inr None by blast
      from evict_sweep_total [OF inv1 occ, of 0] obtain v m s2 where
        sw: "evict_sweep s1 0 = Some (Inr (v, m, s2))" and ev: "evicted s1 v s2"
        by blast
      have ec: "evict_clock s1 = Some (Inr (v, s2))"
        using sw by (simp add: evict_clock_def)
      have inv2: "clock_inv s2" by (rule evicted_inv [OF inv1 ev])
      from ev have v: "0 \<le> v" "v < c_frames_capacity s2" "v < c_frames_capacity s1"
        and fp2: "c_frame_page s2 = (c_frame_page s1)[nat v := None]"
        and cnt: "c_page_faults s2 = c_page_faults s1" "c_disk_reads s2 = c_disk_reads s1"
          "c_frames_capacity s2 = c_frames_capacity s1"
        by (auto simp: evicted_def)
      note vlen = clock_inv_nat [OF inv1 v(1,3)]
      have free2: "c_frame_page s2 ! nat v = None"
        using fp2 vlen by simp
      have miss2: "c_page_to_frame s2 page = None"
        using ev miss1 by (auto simp: evicted_def)
      from install_inv [OF inv2 v(1,2) free2 miss2, of w] acc Inr None ec v fp2 cnt
      show ?thesis
        by (intro exI [of _ v] exI) (auto simp: s1_def)
    qed
  qed
qed

section \<open>The Clock engine: steps and runs\<close>

lemma clock_step_access: "clock_step s a = clock_access s (access_page a) (access_is_write a)"
  by (cases a) (simp_all add: clock_read_memory_def clock_write_memory_def)

lemma clock_step_ok:
  assumes inv: "clock_inv s"
  shows "\<exists>s'. clock_step s a = Some (Inr s') \<and> clock_inv s' \<and>
           c_frames_capacity s' = c_frames_capacity s \<and>
           c_disk_reads s' - c_page_faults s' = c_disk_reads s - c_page_faults s \<and>
           length (c_frame_page s') = length (c_frame_page s) \<and>
           (\<forall>i<length (c_frame_page s). c_frame_page s ! i \<noteq> None
               \<longrightarrow> c_frame_page s' ! i \<noteq> None)"
proof (cases "c_page_to_frame s (access_page a)")
  case None
  from clock_access_fault [OF inv None, of "access_is_write a"] obtain s' f where
    r: "clock_access s (access_page a) (access_is_write a) = Some (Inr s')" "clock_inv s'"
      "0 \<le> f" "f < c_frames_capacity s"
      "c_frame_page s' = (c_frame_page s)[nat f := Some (access_page a)]"
      "c_page_faults s' = c_page_faults s + 1" "c_disk_reads s' = c_disk_reads s + 1"
      "c_frames_capacity s' = c_frames_capacity s"
    by blast
  have "c_frame_page s' ! i \<noteq> None" if "i < length (c_frame_page s)" "c_frame_page s ! i \<noteq> None" for i
    using that r(5) by (cases "i = nat f") simp_all
  with r show ?thesis
    unfolding clock_step_access by (intro exI [of _ s']) simp
next
  case (Some f)
  from clock_access_hit [OF inv Some, of "access_is_write a"]
  show ?thesis unfolding clock_step_access by simp
qed

lemma clock_run_append:
  "clock_run s (xs @ ys) =
     (case clock_run s xs of
        None \<Rightarrow> None
      | Some (Inl e) \<Rightarrow> Some (Inl e)
      | Some (Inr s') \<Rightarrow> clock_run s' ys)"
  by (induction xs arbitrary: s) (auto split: option.splits sum.splits)

lemma clock_run_ok:
  assumes "clock_inv s"
  shows "\<exists>s'. clock_run s tr = Some (Inr s') \<and> clock_inv s' \<and>
           c_frames_capacity s' = c_frames_capacity s \<and>
           c_disk_reads s' - c_page_faults s' = c_disk_reads s - c_page_faults s \<and>
           length (c_frame_page s') = length (c_frame_page s) \<and>
           (\<forall>i<length (c_frame_page s). c_frame_page s ! i \<noteq> None
               \<longrightarrow> c_frame_page s' ! i \<noteq> None)"
  using assms
proof (induction tr arbitrary: s)
  case Nil
  then show ?case by simp
next
  case (Cons a tr)
  from clock_step_ok [OF Cons.prems, of a] obtain s1 where
    s1: "clock_step s a = Some (Inr s1)" "clock_inv s1"
      "c_frames_capacity s1 = c_frames_capacity s"
      "c_disk_reads s1 - c_page_faults s1 = c_disk_reads s - c_page_faults s"
      "length (c_frame_page s1) = length (c_frame_page s)"
      "\<forall>i<length (c_frame_page s). c_frame_page s ! i \<noteq> None \<longrightarrow> c_frame_page s1 ! i \<noteq> None"
    by blast
  from Cons.IH [OF s1(2)] obtain s' where
    s': "clock_run s1 tr = Some (Inr s')" "clock_inv s'"
      "c_frames_capacity s' = c_frames_capacity s1"
      "c_disk_reads s' - c_page_faults s' = c_disk_reads s1 - c_page_faults s1"
      "length (c_frame_page s') = length (c_frame_page s1)"
      "\<forall>i<length (c_frame_page s1). c_frame_page s1 ! i \<noteq> None \<longrightarrow> c_frame_page s' ! i \<noteq> None"
    by blast
  from s1 s' show ?case
    by (intro exI [of _ s']) simp
qed

lemma clock_nonpos_step:
  assumes "frames \<le> 0" "clock_init frames = Inr s"
  shows "clock_step s a = Some (Inl IndexError)"
proof -
  have s: "c_frame_page s = []" "c_page_to_frame s = Map.empty" "c_hand s = 0"
    "c_frames_capacity s = frames"
    using assms by (auto simp: clock_init_def)
  have ff: "find_free_frame (s\<lparr>c_page_faults := x, c_disk_reads := y\<rparr>) = Inr None" for x y
    using s assms(1) by (simp add: find_free_frame_def)
  have sw: "evict_sweep (s\<lparr>c_page_faults := x, c_disk_reads := y\<rparr>) 0 = Some (Inl IndexError)" for x y
    using s by (subst evict_sweep.simps) simp
  show ?thesis
    unfolding clock_step_access
    using s ff sw by (simp add: clock_access_def evict_clock_def)
qed

lemma clock_nonpos_run:
  assumes "frames \<le> 0" "clock_init frames = Inr s" "clock_run s tr = Some (Inr s')"
  shows "tr = [] \<and> s' = s"
proof (cases tr)
  case Nil
  with assms(3) show ?thesis by simp
next
  case (Cons a as)
  with assms(3) clock_nonpos_step [OF assms(1,2), of a] show ?thesis by simp
qed

lemma clock_trace_reach:
  assumes "clock_trace frames tr = Some (Inr s)"
  shows "(1 \<le> frames \<and> clock_inv s \<and> c_frames_capacity s = frames \<and>
            c_disk_reads s = c_page_faults s) \<or>
         (frames \<le> 0 \<and> tr = [] \<and> clock_init frames = Inr s)"
proof -
  obtain s0 where s0: "clock_init frames = Inr s0"
    by (simp add: clock_init_def)
  with assms have run: "clock_run s0 tr = Some (Inr s)"
    by (simp add: clock_trace_def)
  show ?thesis
  proof (cases "1 \<le> frames")
    case True
    from clock_run_ok [OF clock_init_inv [OF True s0], of tr] run s0 True
    show ?thesis by (auto simp: clock_init_def)
  next
    case False
    then have "frames \<le> 0" by simp
    from clock_nonpos_run [OF this s0 run] this s0 show ?thesis by simp
  qed
qed

lemma clock_trace_total:
  assumes "1 \<le> frames"
  shows "\<exists>s. clock_trace frames tr = Some (Inr s)"
proof -
  obtain s0 where s0: "clock_init frames = Inr s0"
    by (simp add: clock_init_def)
  from clock_run_ok [OF clock_init_inv [OF assms s0], of tr] s0
  show ?thesis by (auto simp: clock_trace_def)
qed

lemma clock_trace_append:
  "clock_trace frames (xs @ ys) =
     (case clock_trace frames xs of
        None \<Rightarrow> None
      | Some (Inl e) \<Rightarrow> Some (Inl e)
      | Some (Inr s) \<Rightarrow> clock_run s ys)"
  by (simp add: clock_trace_def clock_init_def clock_run_append)

section \<open>The LRU engine: the victim scan\<close>

lemma lru_scan_append:
  "lru_scan ft at (xs @ ys) acc = ebind (lru_scan ft at xs acc) (lru_scan ft at ys)"
proof (induction xs arbitrary: acc)
  case Nil
  show ?case by (cases acc) simp
next
  case (Cons x xs)
  show ?case
    by (cases acc) (simp add: Cons split: sum.splits option.splits)
qed

lemma py_range_Suc: "map int [0..<Suc n] = map int [0..<n] @ [int n]"
  by simp

lemma lru_scan_prefix:
  assumes "n \<le> length ft" "n \<le> length at"
  shows "\<exists>ot li. lru_scan ft at (map int [0..<n]) (None, 0) = Inr (ot, li) \<and>
           (((\<forall>i<n. ft ! i = None) \<and> ot = None \<and> li = 0) \<or>
            (0 \<le> li \<and> lru_least ft at n (nat li) \<and> ot = Some (at ! nat li)))"
  using assms
proof (induction n)
  case 0
  show ?case by simp
next
  case (Suc n)
  then have n: "n < length ft" "n < length at" by simp_all
  from Suc obtain ot li where
    scan: "lru_scan ft at (map int [0..<n]) (None, 0) = Inr (ot, li)" and
    ih: "((\<forall>i<n. ft ! i = None) \<and> ot = None \<and> li = 0) \<or>
         (0 \<le> li \<and> lru_least ft at n (nat li) \<and> ot = Some (at ! nat li))"
    by auto
  have step: "lru_scan ft at (map int [0..<Suc n]) (None, 0) = lru_scan ft at [int n] (ot, li)"
    unfolding py_range_Suc lru_scan_append scan by simp
  show ?case
  proof (cases "ft ! n")
    case None
    then have "lru_scan ft at [int n] (ot, li) = Inr (ot, li)"
      using n by simp
    moreover have "\<forall>i<Suc n. ft ! i = None" if "\<forall>i<n. ft ! i = None"
      using that None by (auto simp: less_Suc_eq)
    moreover have "lru_least ft at (Suc n) (nat li)" if "lru_least ft at n (nat li)"
      using that None by (auto simp: lru_least_def less_Suc_eq)
    ultimately show ?thesis
      using step ih by auto
  next
    case (Some p)
    from ih show ?thesis
    proof
      assume a: "(\<forall>i<n. ft ! i = None) \<and> ot = None \<and> li = 0"
      then have "lru_scan ft at [int n] (ot, li) = Inr (Some (at ! n), int n)"
        using n Some by simp
      moreover have "lru_least ft at (Suc n) n"
        using a Some by (auto simp: lru_least_def less_Suc_eq)
      ultimately show ?thesis using step by simp
    next
      assume a: "0 \<le> li \<and> lru_least ft at n (nat li) \<and> ot = Some (at ! nat li)"
      show ?thesis
      proof (cases "at ! n < at ! nat li")
        case True
        then have "lru_scan ft at [int n] (ot, li) = Inr (Some (at ! n), int n)"
          using n Some a by simp
        moreover have "lru_least ft at (Suc n) n"
          using a Some True by (fastforce simp: lru_least_def less_Suc_eq)
        ultimately show ?thesis using step by simp
      next
        case False
        then have "lru_scan ft at [int n] (ot, li) = Inr (ot, li)"
          using n Some a by simp
        moreover have "lru_least ft at (Suc n) (nat li)"
          using a Some False by (auto simp: lru_least_def less_Suc_eq)
        ultimately show ?thesis using step a by simp
      qed
    qed
  qed
qed

lemma find_lru_victim_least:
  assumes len: "length ft = nat n" "length at = nat n"
    and occ: "\<exists>i<nat n. ft ! i \<noteq> None"
    and s: "l_frame_table s = ft" "l_access_time s = at" "l_frames s = n"
  shows "\<exists>v. find_lru_victim s = Inr v \<and> 0 \<le> v \<and> v < n \<and> lru_least ft at (nat n) (nat v)"
proof -
  from lru_scan_prefix [of "nat n" ft at] len obtain ot li where
    scan: "lru_scan ft at (map int [0..<nat n]) (None, 0) = Inr (ot, li)" and
    r: "((\<forall>i<nat n. ft ! i = None) \<and> ot = None \<and> li = 0) \<or>
         (0 \<le> li \<and> lru_least ft at (nat n) (nat li) \<and> ot = Some (at ! nat li))"
    by auto
  from r occ have li: "0 \<le> li" "lru_least ft at (nat n) (nat li)" by auto
  then have "li < n" by (auto simp: lru_least_def)
  moreover have "find_lru_victim s = Inr li"
    using scan s by (simp add: find_lru_victim_def py_range_def)
  ultimately show ?thesis using li by simp
qed

section \<open>The LRU engine: the invariant\<close>

lemma lru_inv_lengths:
  "lru_inv s \<Longrightarrow> 1 \<le> l_frames s \<and>
     int (length (l_frame_table s)) = l_frames s \<and>
     int (length (l_dirty_bits s)) = l_frames s \<and>
     int (length (l_access_time s)) = l_frames s"
  by (auto simp: lru_inv_def)

lemma lru_inv_nat:
  "lru_inv s \<Longrightarrow> 0 \<le> f \<Longrightarrow> f < l_frames s \<Longrightarrow>
   nat f < length (l_frame_table s) \<and> nat f < length (l_dirty_bits s) \<and>
   nat f < length (l_access_time s)"
  by (simp add: lru_inv_def)

lemma lru_inv_resident: "lru_inv s \<Longrightarrow> resident_ok (l_frame_table s) (l_page_table s)"
  by (simp add: lru_inv_def)

lemma lru_inv_free: "lru_inv s \<Longrightarrow> free_ok (l_frame_table s) (l_free_frames s)"
  by (simp add: lru_inv_def)

lemma lru_init_inv: "1 \<le> frames \<Longrightarrow> lru_init frames = Inr s \<Longrightarrow> lru_inv s"
  by (auto simp: lru_init_def lru_inv_def py_repeat_def resident_ok_empty free_ok_init)

lemma lru_inv_counters:
  "lru_inv (s\<lparr>l_current_time := t\<rparr>) = lru_inv s"
  "lru_inv (s\<lparr>l_page_faults := a, l_disk_reads := b, l_current_time := t\<rparr>) = lru_inv s"
  by (simp_all add: lru_inv_def)

lemma lru_full_victim:
  assumes inv: "lru_inv s" and full: "l_free_frames s = []"
  shows "\<exists>v. find_lru_victim s = Inr v \<and> 0 \<le> v \<and> v < l_frames s \<and>
           lru_least (l_frame_table s) (l_access_time s) (nat (l_frames s)) (nat v)"
proof -
  note len = lru_inv_lengths [OF inv]
  have "0 < length (l_frame_table s)" using len by auto
  then have "l_frame_table s ! 0 \<noteq> None"
    using free_ok_Nil [of "l_frame_table s" 0] lru_inv_free [OF inv] full by simp
  then have "\<exists>i<nat (l_frames s). l_frame_table s ! i \<noteq> None"
    using len by (intro exI [of _ 0]) auto
  then show ?thesis
    using len by (intro find_lru_victim_least) auto
qed

lemma lru_take_free:
  assumes inv: "lru_inv s" and fr: "l_free_frames s = f # rest"
  shows "lru_take_frame s = Inr (f, s\<lparr>l_free_frames := rest\<rparr>)"
    and "0 \<le> f" "f < l_frames s" "l_frame_table s ! nat f = None"
    and "free_ok ((l_frame_table s)[nat f := Some x]) rest"
proof -
  show "lru_take_frame s = Inr (f, s\<lparr>l_free_frames := rest\<rparr>)"
    using fr by (simp add: lru_take_frame_def)
  have fo: "free_ok (l_frame_table s) (f # rest)"
    using lru_inv_free [OF inv] fr by simp
  from free_ok_take [OF fo] lru_inv_lengths [OF inv]
  show "0 \<le> f" "f < l_frames s" "l_frame_table s ! nat f = None"
    "free_ok ((l_frame_table s)[nat f := Some x]) rest"
    by auto
qed

lemma lru_take_victim:
  assumes inv: "lru_inv s" and full: "l_free_frames s = []"
  shows "\<exists>v p. lru_take_frame s =
             Inr (v, s\<lparr>l_disk_writes := l_disk_writes s + (if l_dirty_bits s ! nat v then 1 else 0),
                        l_page_table := (l_page_table s)(p := None)\<rparr>) \<and>
           find_lru_victim s = Inr v \<and> 0 \<le> v \<and> v < l_frames s \<and>
           l_frame_table s ! nat v = Some p"
proof -
  from lru_full_victim [OF inv full] obtain v where
    v: "find_lru_victim s = Inr v" "0 \<le> v" "v < l_frames s"
       "lru_least (l_frame_table s) (l_access_time s) (nat (l_frames s)) (nat v)"
    by blast
  note len = lru_inv_lengths [OF inv]
  from v(4) obtain p where p: "l_frame_table s ! nat v = Some p"
    by (auto simp: lru_least_def)
  have m: "l_page_table s p = Some v"
    using resident_ok_frame [OF lru_inv_resident [OF inv] v(2) _ p] v(3) len by simp
  have "lru_take_frame s =
          Inr (v, s\<lparr>l_disk_writes := l_disk_writes s + (if l_dirty_bits s ! nat v then 1 else 0),
                     l_page_table := (l_page_table s)(p := None)\<rparr>)"
    using full v(1-3) len p m by (simp add: lru_take_frame_def dict_del_def)
  with v p show ?thesis by blast
qed

lemma handle_page_fault_ok:
  assumes inv: "lru_inv s" and miss: "l_page_table s page = None"
  shows "\<exists>s' f. handle_page_fault s page w = Inr s' \<and> lru_inv s' \<and>
           0 \<le> f \<and> f < l_frames s \<and>
           l_frame_table s' = (l_frame_table s)[nat f := Some page] \<and>
           l_page_table s' page = Some f \<and>
           l_page_faults s' = l_page_faults s + 1 \<and>
           l_disk_reads s' = l_disk_reads s + 1 \<and>
           l_current_time s' = l_current_time s + 1 \<and>
           l_frames s' = l_frames s"
proof -
  define s1 where "s1 = s\<lparr>l_page_faults := l_page_faults s + 1,
                           l_disk_reads := l_disk_reads s + 1,
                           l_current_time := l_current_time s + 1\<rparr>"
  have inv1: "lru_inv s1"
    unfolding s1_def using inv by (simp add: lru_inv_def)
  note len = lru_inv_lengths [OF inv1]
  have hpf: "handle_page_fault s page w =
      ebind (lru_take_frame s1) (\<lambda>(frame_index, s2).
      ebind (list_set (l_frame_table s2) frame_index (Some page)) (\<lambda>ft.
      ebind (list_set (l_dirty_bits s2) frame_index w) (\<lambda>db.
      ebind (list_set (l_access_time s2) frame_index (l_current_time s2)) (\<lambda>at.
        Inr (s2\<lparr>l_frame_table := ft,
                 l_page_table := (l_page_table s2)(page \<mapsto> frame_index),
                 l_dirty_bits := db, l_access_time := at\<rparr>)))))"
    unfolding s1_def by (simp add: handle_page_fault_def Let_def)
  show ?thesis
  proof (cases "l_free_frames s1")
    case (Cons f rest)
    note t = lru_take_free [OF inv1 Cons]
    define s' where "s' = s1\<lparr>l_free_frames := rest,
        l_frame_table := (l_frame_table s1)[nat f := Some page],
        l_page_table := (l_page_table s1)(page \<mapsto> f),
        l_dirty_bits := (l_dirty_bits s1)[nat f := w],
        l_access_time := (l_access_time s1)[nat f := l_current_time s1]\<rparr>"
    have r: "handle_page_fault s page w = Inr s'"
      unfolding hpf t(1) s'_def using t(2,3) len by simp
    have "resident_ok ((l_frame_table s1)[nat f := Some page]) ((l_page_table s1)(page \<mapsto> f))"
      using lru_inv_resident [OF inv1] t(2-4) len miss
      by (intro resident_ok_install) (auto simp: s1_def)
    then have "lru_inv s'"
      using inv1 t(5) by (simp add: lru_inv_def s'_def)
    with r t(2,3) show ?thesis
      by (intro exI [of _ s'] exI [of _ f]) (simp add: s'_def s1_def)
  next
    case Nil
    from lru_take_victim [OF inv1 Nil] obtain v p where
      t: "lru_take_frame s1 =
             Inr (v, s1\<lparr>l_disk_writes := l_disk_writes s1 + (if l_dirty_bits s1 ! nat v then 1 else 0),
                        l_page_table := (l_page_table s1)(p := None)\<rparr>)"
        "0 \<le> v" "v < l_frames s1" "l_frame_table s1 ! nat v = Some p"
      by blast
    define s' where "s' = s1\<lparr>
        l_disk_writes := l_disk_writes s1 + (if l_dirty_bits s1 ! nat v then 1 else 0),
        l_frame_table := (l_frame_table s1)[nat v := Some page],
        l_page_table := ((l_page_table s1)(p := None))(page \<mapsto> v),
        l_dirty_bits := (l_dirty_bits s1)[nat v := w],
        l_access_time := (l_access_time s1)[nat v := l_current_time s1]\<rparr>"
    have r: "handle_page_fault s page w = Inr s'"
      unfolding hpf t(1) s'_def using t(2,3) len by simp
    have "resident_ok ((l_frame_table s1)[nat v := Some page])
            (((l_page_table s1)(p := None))(page \<mapsto> v))"
      using lru_inv_resident [OF inv1] t(2-4) len miss
      by (intro resident_ok_replace) (auto simp: s1_def)
    moreover have "free_ok ((l_frame_table s1)[nat v := Some page]) (l_free_frames s1)"
      using lru_inv_free [OF inv1] t(2-4) len
      by (intro free_ok_update_occupied) auto
    ultimately have "lru_inv s'"
      using inv1 by (simp add: lru_inv_def s'_def)
    with r t(2,3) show ?thesis
      by (intro exI [of _ s'] exI [of _ v]) (simp add: s'_def s1_def)
  qed
qed

section \<open>The LRU engine: steps and runs\<close>

lemma lru_step_hit:
  assumes inv: "lru_inv s" and hit: "l_page_table s (access_page a) = Some f"
  shows "lru_step s a =
           Inr (s\<lparr>l_current_time := l_current_time s + 1,
                   l_dirty_bits := (if access_is_write a then (l_dirty_bits s)[nat f := True]
                                    else l_dirty_bits s),
                   l_access_time := (l_access_time s)[nat f := l_current_time s + 1]\<rparr>)"
    and "lru_inv (s\<lparr>l_current_time := l_current_time s + 1,
                   l_dirty_bits := (if access_is_write a then (l_dirty_bits s)[nat f := True]
                                    else l_dirty_bits s),
                   l_access_time := (l_access_time s)[nat f := l_current_time s + 1]\<rparr>)"
proof -
  note len = lru_inv_lengths [OF inv]
  from resident_ok_map [OF lru_inv_resident [OF inv] hit] len
  have f: "0 \<le> f" "f < l_frames s" by auto
  show "lru_step s a =
           Inr (s\<lparr>l_current_time := l_current_time s + 1,
                   l_dirty_bits := (if access_is_write a then (l_dirty_bits s)[nat f := True]
                                    else l_dirty_bits s),
                   l_access_time := (l_access_time s)[nat f := l_current_time s + 1]\<rparr>)"
    using hit f len by (cases a) (simp_all add: lru_read_memory_def lru_write_memory_def)
  show "lru_inv (s\<lparr>l_current_time := l_current_time s + 1,
                   l_dirty_bits := (if access_is_write a then (l_dirty_bits s)[nat f := True]
                                    else l_dirty_bits s),
                   l_access_time := (l_access_time s)[nat f := l_current_time s + 1]\<rparr>)"
    using inv by (simp add: lru_inv_def)
qed

lemma lru_step_fault:
  assumes inv: "lru_inv s" and miss: "l_page_table s (access_page a) = None"
  shows "\<exists>s' f. lru_step s a = Inr s' \<and> lru_inv s' \<and>
           0 \<le> f \<and> f < l_frames s \<and>
           l_frame_table s' = (l_frame_table s)[nat f := Some (access_page a)] \<and>
           l_page_table s' (access_page a) = Some f \<and>
           l_page_faults s' = l_page_faults s + 1 \<and>
           l_disk_reads s' = l_disk_reads s + 1 \<and>
           l_current_time s' = l_current_time s + 2 \<and>
           l_frames s' = l_frames s"
proof -
  let ?s1 = "s\<lparr>l_current_time := l_current_time s + 1\<rparr>"
  have inv1: "lru_inv ?s1" using inv by (simp add: lru_inv_def)
  have miss1: "l_page_table ?s1 (access_page a) = None" using miss by simp
  have step: "lru_step s a = handle_page_fault ?s1 (access_page a) (access_is_write a)"
    using miss by (cases a) (simp_all add: lru_read_memory_def lru_write_memory_def)
  from handle_page_fault_ok [OF inv1 miss1, of "access_is_write a"] step
  show ?thesis by auto
qed

lemma lru_step_ok:
  assumes inv: "lru_inv s"
  shows "\<exists>s'. lru_step s a = Inr s' \<and> lru_inv s' \<and>
           l_frames s' = l_frames s \<and>
           l_disk_reads s' - l_page_faults s' = l_disk_reads s - l_page_faults s \<and>
           length (l_frame_table s') = length (l_frame_table s) \<and>
           (\<forall>i<length (l_frame_table s). l_frame_table s ! i \<noteq> None
               \<longrightarrow> l_frame_table s' ! i \<noteq> None)"
proof (cases "l_page_table s (access_page a)")
  case None
  from lru_step_fault [OF inv None] obtain s' f where
    r: "lru_step s a = Inr s'" "lru_inv s'"
      "l_frame_table s' = (l_frame_table s)[nat f := Some (access_page a)]"
      "l_page_faults s' = l_page_faults s + 1" "l_disk_reads s' = l_disk_reads s + 1"
      "l_frames s' = l_frames s"
    by blast
  have "l_frame_table s' ! i \<noteq> None" if "i < length (l_frame_table s)" "l_frame_table s ! i \<noteq> None" for i
    using that r(3) by (cases "i = nat f") simp_all
  with r show ?thesis
    by (intro exI [of _ s']) simp
next
  case (Some f)
  from lru_step_hit [OF inv Some] show ?thesis by simp
qed

lemma lru_run_append:
  "lru_run s (xs @ ys) = (case lru_run s xs of Inl e \<Rightarrow> Inl e | Inr s' \<Rightarrow> lru_run s' ys)"
  by (induction xs arbitrary: s) (auto split: sum.splits)

lemma lru_run_ok:
  assumes "lru_inv s"
  shows "\<exists>s'. lru_run s tr = Inr s' \<and> lru_inv s' \<and>
           l_frames s' = l_frames s \<and>
           l_disk_reads s' - l_page_faults s' = l_disk_reads s - l_page_faults s \<and>
           length (l_frame_table s') = length (l_frame_table s) \<and>
           (\<forall>i<length (l_frame_table s). l_frame_table s ! i \<noteq> None
               \<longrightarrow> l_frame_table s' ! i \<noteq> None)"
  using assms
proof (induction tr arbitrary: s)
  case Nil
  then show ?case by simp
next
  case (Cons a tr)
  from lru_step_ok [OF Cons.prems, of a] obtain s1 where
    s1: "lru_step s a = Inr s1" "lru_inv s1"
      "l_frames s1 = l_frames s"
      "l_disk_reads s1 - l_page_faults s1 = l_disk_reads s - l_page_faults s"
      "length (l_frame_table s1) = length (l_frame_table s)"
      "\<forall>i<length (l_frame_table s). l_frame_table s ! i \<noteq> None \<longrightarrow> l_frame_table s1 ! i \<noteq> None"
    by blast
  from Cons.IH [OF s1(2)] obtain s' where
    s': "lru_run s1 tr = Inr s'" "lru_inv s'"
      "l_frames s' = l_frames s1"
      "l_disk_reads s' - l_page_faults s' = l_disk_reads s1 - l_page_faults s1"
      "length (l_frame_table s') = length (l_frame_table s1)"
      "\<forall>i<length (l_frame_table s1). l_frame_table s1 ! i \<noteq> None \<longrightarrow> l_frame_table s' ! i \<noteq> None"
    by blast
  from s1 s' show ?case
    by (intro exI [of _ s']) simp
qed

lemma lru_nonpos_step:
  assumes "frames \<le> 0" "lru_init frames = Inr s"
  shows "lru_step s a = Inl IndexError"
proof -
  have s: "l_frame_table s = []" "l_page_table s = Map.empty" "l_free_frames s = []"
    "l_frames s = frames"
    using assms by (auto simp: lru_init_def)
  have v: "find_lru_victim (s\<lparr>l_current_time := t, l_page_faults := x, l_disk_reads := y,
                               l_current_time := u\<rparr>) = Inr 0" for t x y u
    using s assms(1) by (simp add: find_lru_victim_def)
  have "handle_page_fault (s\<lparr>l_current_time := t\<rparr>) p w = Inl IndexError" for t p w
    using s v by (simp add: handle_page_fault_def lru_take_frame_def Let_def)
  then show ?thesis
    using s by (cases a) (simp_all add: lru_read_memory_def lru_write_memory_def)
qed

lemma lru_nonpos_run:
  assumes "frames \<le> 0" "lru_init frames = Inr s" "lru_run s tr = Inr s'"
  shows "tr = [] \<and> s' = s"
proof (cases tr)
  case Nil
  with assms(3) show ?thesis by simp
next
  case (Cons a as)
  with assms(3) lru_nonpos_step [OF assms(1,2), of a] show ?thesis by simp
qed

lemma lru_trace_reach:
  assumes "lru_trace frames tr = Inr s"
  shows "(1 \<le> frames \<and> lru_inv s \<and> l_frames s = frames \<and> l_disk_reads s = l_page_faults s) \<or>
         (frames \<le> 0 \<and> tr = [] \<and> lru_init frames = Inr s)"
proof -
  obtain s0 where s0: "lru_init frames = Inr s0"
    by (simp add: lru_init_def)
  with assms have run: "lru_run s0 tr = Inr s"
    by (simp add: lru_trace_def)
  show ?thesis
  proof (cases "1 \<le> frames")
    case True
    from lru_run_ok [OF lru_init_inv [OF True s0], of tr] run s0 True
    show ?thesis by (auto simp: lru_init_def)
  next
    case False
    then have "frames \<le> 0" by simp
    from lru_nonpos_run [OF this s0 run] this s0 show ?thesis by simp
  qed
qed

lemma lru_trace_total:
  assumes "1 \<le> frames"
  shows "\<exists>s. lru_trace frames tr = Inr s"
proof -
  obtain s0 where s0: "lru_init frames = Inr s0"
    by (simp add: lru_init_def)
  from lru_run_ok [OF lru_init_inv [OF assms s0], of tr] s0
  show ?thesis by (auto simp: lru_trace_def)
qed

lemma lru_trace_append:
  "lru_trace frames (xs @ ys) =
     (case lru_trace frames xs of Inl e \<Rightarrow> Inl e | Inr s \<Rightarrow> lru_run s ys)"
  by (simp add: lru_trace_def lru_init_def lru_run_append)

section \<open>The Random engine: the invariant\<close>

lemma rand_pages_length [simp]: "length (rand_pages fr) = length fr"
  by (simp add: rand_pages_def)

lemma rand_pages_nth: "i < length fr \<Longrightarrow> rand_pages fr ! i = map_option entry_page (fr ! i)"
  by (simp add: rand_pages_def)

lemma rand_pages_update:
  "rand_pages (fr[i := x]) = (rand_pages fr)[i := map_option entry_page x]"
  by (simp add: rand_pages_def map_update)

lemma rand_inv_lengths:
  "rand_inv s \<Longrightarrow> 1 \<le> r_num_frames s \<and> int (length (r_frames s)) = r_num_frames s"
  by (auto simp: rand_inv_def)

lemma rand_inv_resident:
  "rand_inv s \<Longrightarrow> resident_ok (rand_pages (r_frames s)) (r_page_to_frame s)"
  by (simp add: rand_inv_def)

lemma rand_inv_free: "rand_inv s \<Longrightarrow> free_ok (r_frames s) (r_free s)"
  by (simp add: rand_inv_def)

lemma rand_init_inv: "1 \<le> frames \<Longrightarrow> rand_init frames = Inr s \<Longrightarrow> rand_inv s"
  by (auto simp: rand_init_def rand_inv_def py_repeat_def rand_pages_def
                 resident_ok_empty free_ok_init)

lemma rand_inv_entry:
  assumes inv: "rand_inv s" and hit: "r_page_to_frame s page = Some f"
  shows "0 \<le> f \<and> f < r_num_frames s \<and>
         (\<exists>en. r_frames s ! nat f = Some en \<and> entry_page en = page)"
proof -
  note len = rand_inv_lengths [OF inv]
  from resident_ok_map [OF rand_inv_resident [OF inv] hit]
  have f: "0 \<le> f" "f < int (length (r_frames s))" "rand_pages (r_frames s) ! nat f = Some page"
    by auto
  then have "map_option entry_page (r_frames s ! nat f) = Some page"
    by (simp add: rand_pages_nth)
  then have "\<exists>en. r_frames s ! nat f = Some en \<and> entry_page en = page"
    by auto
  with f len show ?thesis by simp
qed

lemma rand_inv_frame:
  assumes inv: "rand_inv s" and f: "0 \<le> f" "f < r_num_frames s"
    and en: "r_frames s ! nat f = Some en"
  shows "r_page_to_frame s (entry_page en) = Some f"
proof -
  note len = rand_inv_lengths [OF inv]
  have "rand_pages (r_frames s) ! nat f = Some (entry_page en)"
    using f len en by (simp add: rand_pages_nth)
  with resident_ok_frame [OF rand_inv_resident [OF inv] f(1)] f(2) len
  show ?thesis by simp
qed

lemma choose_victim_full:
  assumes inv: "rand_inv s" and full: "r_free s = []"
  shows "\<exists>idx d. choose_victim rnd s = Some (Inr (idx, s\<lparr>r_draws := d\<rparr>)) \<and>
           0 \<le> idx \<and> idx < r_num_frames s \<and> r_frames s ! nat idx \<noteq> None \<and>
           (r_num_frames s = 1 \<longrightarrow> idx = 0 \<and> d = r_draws s)"
proof -
  note len = rand_inv_lengths [OF inv]
  have occ: "r_frames s ! nat i \<noteq> None" if "0 \<le> i" "i < r_num_frames s" for i
    using free_ok_Nil [of "r_frames s" "nat i"] rand_inv_free [OF inv] full that len by auto
  show ?thesis
  proof (cases "r_num_frames s \<le> 1")
    case True
    with len have n: "r_num_frames s = 1" by simp
    have "choose_victim rnd s = Some (Inr (0, s\<lparr>r_draws := r_draws s\<rparr>))"
      using n by (simp add: choose_victim_def)
    with occ [of 0] n show ?thesis by (intro exI [of _ 0] exI [of _ "r_draws s"]) simp
  next
    case False
    define idx where "idx = rnd (r_draws s) mod r_num_frames s"
    have idx: "0 \<le> idx" "idx < r_num_frames s"
      using False by (simp_all add: idx_def)
    from occ [OF idx] obtain en where en: "r_frames s ! nat idx = Some en" by auto
    have rr: "randrange rnd s (r_num_frames s) = Inr (idx, s\<lparr>r_draws := Suc (r_draws s)\<rparr>)"
      using False by (simp add: randrange_def idx_def)
    have "choose_loop rnd (s\<lparr>r_draws := Suc (r_draws s)\<rparr>) idx =
            Some (Inr (idx, s\<lparr>r_draws := Suc (r_draws s)\<rparr>))"
      using idx len en by (subst choose_loop.simps) simp
    then have "choose_victim rnd s = Some (Inr (idx, s\<lparr>r_draws := Suc (r_draws s)\<rparr>))"
      using False rr by (simp add: choose_victim_def)
    with idx en False show ?thesis
      by (intro exI [of _ idx] exI [of _ "Suc (r_draws s)"]) simp
  qed
qed

lemma rand_evict_occupied:
  assumes inv: "rand_inv s" and idx: "0 \<le> idx" "idx < r_num_frames s"
    and en: "r_frames s ! nat idx = Some en"
  shows "rand_evict s idx =
           Inr (s\<lparr>r_disk_writes := r_disk_writes s + (if entry_dirty en then 1 else 0),
                   r_page_to_frame := (r_page_to_frame s)(entry_page en := None),
                   r_frames := (r_frames s)[nat idx := None]\<rparr>)"
proof -
  note len = rand_inv_lengths [OF inv]
  have m: "r_page_to_frame s (entry_page en) = Some idx"
    by (rule rand_inv_frame [OF inv idx en])
  show ?thesis
    using idx len en m by (simp add: rand_evict_def Let_def)
qed

lemma set_entry_dirty_occupied:
  assumes "0 \<le> idx" "idx < int (length (r_frames s))" "r_frames s ! nat idx = Some en"
  shows "set_entry_dirty s idx g =
           Inr (s\<lparr>r_frames := (r_frames s)[nat idx := Some (en\<lparr>entry_dirty := g (entry_dirty en)\<rparr>)]\<rparr>)"
  using assms by (simp add: set_entry_dirty_def)

section \<open>The Random engine: accesses\<close>

lemma rand_access_hit:
  assumes inv: "rand_inv s" and hit: "r_page_to_frame s page = Some f"
  shows "\<exists>en. r_frames s ! nat f = Some en \<and> entry_page en = page \<and>
           rand_access rnd s page w =
             Some (Inr (s\<lparr>r_frames := (r_frames s)[nat f :=
                           Some (en\<lparr>entry_dirty := (if w then True else entry_dirty en)\<rparr>)]\<rparr>)) \<and>
           rand_inv (s\<lparr>r_frames := (r_frames s)[nat f :=
                           Some (en\<lparr>entry_dirty := (if w then True else entry_dirty en)\<rparr>)]\<rparr>)"
proof -
  note len = rand_inv_lengths [OF inv]
  from rand_inv_entry [OF inv hit] obtain en where
    f: "0 \<le> f" "f < r_num_frames s" and en: "r_frames s ! nat f = Some en" "entry_page en = page"
    by blast
  let ?en' = "en\<lparr>entry_dirty := (if w then True else entry_dirty en)\<rparr>"
  have acc: "rand_access rnd s page w = Some (Inr (s\<lparr>r_frames := (r_frames s)[nat f := Some ?en']\<rparr>))"
    using hit f len en(1)
    by (simp add: rand_access_def set_entry_dirty_occupied [where en = en])
  have pg: "rand_pages ((r_frames s)[nat f := Some ?en']) = rand_pages (r_frames s)"
  proof -
    have "rand_pages (r_frames s) ! nat f = Some page"
      using f len en by (simp add: rand_pages_nth)
    then have "(rand_pages (r_frames s))[nat f := Some page] = rand_pages (r_frames s)"
      by (metis list_update_id)
    then show ?thesis using en(2) by (simp add: rand_pages_update)
  qed
  have fo: "free_ok ((r_frames s)[nat f := Some ?en']) (r_free s)"
    using rand_inv_free [OF inv] f len en(1) by (intro free_ok_update_occupied) auto
  have "rand_inv (s\<lparr>r_frames := (r_frames s)[nat f := Some ?en']\<rparr>)"
    using inv pg fo by (simp add: rand_inv_def)
  with acc en show ?thesis by blast
qed

lemma rand_take_frame_ok:
  assumes inv: "rand_inv s"
  shows "\<exists>f s1 m. rand_take_frame rnd s = Some (Inr (f, s1)) \<and>
           0 \<le> f \<and> f < r_num_frames s \<and>
           r_num_frames s1 = r_num_frames s \<and>
           r_page_faults s1 = r_page_faults s \<and> r_disk_reads s1 = r_disk_reads s \<and>
           r_frames s1 = (r_frames s)[nat f := None] \<and>
           r_page_to_frame s1 = m \<and>
           (\<forall>page x. r_page_to_frame s page = None \<longrightarrow>
              resident_ok ((rand_pages (r_frames s))[nat f := Some page]) (m(page \<mapsto> f)) \<and>
              m page = None \<and>
              free_ok ((r_frames s)[nat f := Some x]) (r_free s1))"
proof (cases "r_free s")
  case (Cons f rest)
  note len = rand_inv_lengths [OF inv]
  have fo: "free_ok (r_frames s) (f # rest)"
    using rand_inv_free [OF inv] Cons by simp
  note t = free_ok_take [OF fo]
  have tf: "rand_take_frame rnd s = Some (Inr (f, s\<lparr>r_free := rest\<rparr>))"
    using Cons by (simp add: rand_take_frame_def)
  have same: "(r_frames s)[nat f := None] = r_frames s"
    using t(3) by (metis list_update_id)
  have "resident_ok ((rand_pages (r_frames s))[nat f := Some page]) ((r_page_to_frame s)(page \<mapsto> f))"
    if "r_page_to_frame s page = None" for page
    using rand_inv_resident [OF inv] t(1-3) that
    by (intro resident_ok_install) (auto simp: rand_pages_nth)
  with tf t len same show ?thesis
    by (intro exI [of _ f] exI [of _ "s\<lparr>r_free := rest\<rparr>"] exI [of _ "r_page_to_frame s"]) simp
next
  case Nil
  note len = rand_inv_lengths [OF inv]
  from choose_victim_full [OF inv Nil, of rnd] obtain idx d where
    cv: "choose_victim rnd s = Some (Inr (idx, s\<lparr>r_draws := d\<rparr>))" and
    idx: "0 \<le> idx" "idx < r_num_frames s" and occ: "r_frames s ! nat idx \<noteq> None"
    by blast
  from occ obtain en where en: "r_frames s ! nat idx = Some en" by auto
  let ?s0 = "s\<lparr>r_draws := d\<rparr>"
  have inv0: "rand_inv ?s0" using inv by (simp add: rand_inv_def)
  define s1 where "s1 = ?s0\<lparr>r_disk_writes := r_disk_writes ?s0 + (if entry_dirty en then 1 else 0),
                   r_page_to_frame := (r_page_to_frame ?s0)(entry_page en := None),
                   r_frames := (r_frames ?s0)[nat idx := None]\<rparr>"
  have ev: "rand_evict ?s0 idx = Inr s1"
    unfolding s1_def using idx en by (intro rand_evict_occupied [OF inv0]) simp_all
  have tf: "rand_take_frame rnd s = Some (Inr (idx, s1))"
    using Nil cv ev by (simp add: rand_take_frame_def)
  have pg: "rand_pages (r_frames s) ! nat idx = Some (entry_page en)"
    using idx len en by (simp add: rand_pages_nth)
  have a: "resident_ok ((rand_pages (r_frames s))[nat idx := Some page])
             (((r_page_to_frame s)(entry_page en := None))(page \<mapsto> idx))"
    if "r_page_to_frame s page = None" for page
    using rand_inv_resident [OF inv] idx len pg that
    by (intro resident_ok_replace) auto
  have b: "free_ok ((r_frames s)[nat idx := Some x]) (r_free s1)" for x
    using rand_inv_free [OF inv] idx len occ
    by (simp add: s1_def) (intro free_ok_update_occupied, auto)
  from tf idx a b show ?thesis
    by (intro exI [of _ idx] exI [of _ s1] exI [of _ "(r_page_to_frame s)(entry_page en := None)"])
       (simp add: s1_def)
qed

lemma rand_access_fault:
  assumes inv: "rand_inv s" and miss: "r_page_to_frame s page = None"
  shows "\<exists>s' f. rand_access rnd s page w = Some (Inr s') \<and> rand_inv s' \<and>
           0 \<le> f \<and> f < r_num_frames s \<and>
           r_frames s' = (r_frames s)[nat f := Some \<lparr>entry_page = page, entry_dirty = w\<rparr>] \<and>
           r_page_to_frame s' page = Some f \<and>
           r_page_faults s' = r_page_faults s + 1 \<and>
           r_disk_reads s' = r_disk_reads s + 1 \<and>
           r_num_frames s' = r_num_frames s"
proof -
  let ?s0 = "s\<lparr>r_page_faults := r_page_faults s + 1\<rparr>"
  let ?e = "\<lparr>entry_page = page, entry_dirty = w\<rparr>"
  have inv0: "rand_inv ?s0" using inv by (simp add: rand_inv_def)
  note len = rand_inv_lengths [OF inv]
  from rand_take_frame_ok [OF inv0, of rnd] obtain f s1 m where
    tf: "rand_take_frame rnd ?s0 = Some (Inr (f, s1))" and
    f: "0 \<le> f" "f < r_num_frames s" and
    s1: "r_num_frames s1 = r_num_frames s" "r_page_faults s1 = r_page_faults s + 1"
        "r_disk_reads s1 = r_disk_reads s" "r_frames s1 = (r_frames s)[nat f := None]"
        "r_page_to_frame s1 = m" and
    post: "\<forall>page x. r_page_to_frame ?s0 page = None \<longrightarrow>
              resident_ok ((rand_pages (r_frames ?s0))[nat f := Some page]) (m(page \<mapsto> f)) \<and>
              m page = None \<and>
              free_ok ((r_frames ?s0)[nat f := Some x]) (r_free s1)"
    by auto
  from post miss have
    ro: "resident_ok ((rand_pages (r_frames s))[nat f := Some page]) (m(page \<mapsto> f))" and
    fo: "free_ok ((r_frames s)[nat f := Some ?e]) (r_free s1)"
    by auto
  define s' where "s' = s1\<lparr>r_disk_reads := r_disk_reads s1 + 1,
                           r_frames := (r_frames s)[nat f := Some ?e],
                           r_page_to_frame := m(page \<mapsto> f)\<rparr>"
  have flen: "f < int (length (r_frames s1))" "nat f < length (r_frames s)"
    using f len s1(4) by auto
  have "rand_access rnd s page w = Some (Inr s')"
  proof (cases w)
    case True
    have "set_entry_dirty s' f (\<lambda>d. True) = Inr s'"
      using f flen True
      by (simp add: set_entry_dirty_occupied [where en = ?e] s'_def)
    then show ?thesis
      using miss tf f flen s1 True
      by (simp add: rand_access_def Let_def s'_def)
  next
    case False
    then show ?thesis
      using miss tf f flen s1
      by (simp add: rand_access_def Let_def s'_def)
  qed
  moreover have "rand_inv s'"
    using ro fo len s1 by (auto simp: rand_inv_def s'_def rand_pages_update)
  ultimately show ?thesis
    using f s1 by (intro exI [of _ s'] exI [of _ f]) (simp add: s'_def)
qed

section \<open>The Random engine: steps and runs\<close>

lemma rand_step_access:
  "rand_step rnd s a = rand_access rnd s (access_page a) (access_is_write a)"
  by (cases a) (simp_all add: rand_read_memory_def rand_write_memory_def)

lemma rand_step_ok:
  assumes inv: "rand_inv s"
  shows "\<exists>s'. rand_step rnd s a = Some (Inr s') \<and> rand_inv s' \<and>
           r_num_frames s' = r_num_frames s \<and>
           r_disk_reads s' - r_page_faults s' = r_disk_reads s - r_page_faults s \<and>
           length (r_frames s') = length (r_frames s) \<and>
           (\<forall>i<length (r_frames s). r_frames s ! i \<noteq> None \<longrightarrow> r_frames s' ! i \<noteq> None)"
proof (cases "r_page_to_frame s (access_page a)")
  case None
  from rand_access_fault [OF inv None, of rnd "access_is_write a"] obtain s' f where
    r: "rand_access rnd s (access_page a) (access_is_write a) = Some (Inr s')" "rand_inv s'"
      "r_frames s' = (r_frames s)[nat f :=
           Some \<lparr>entry_page = access_page a, entry_dirty = access_is_write a\<rparr>]"
      "r_page_faults s' = r_page_faults s + 1" "r_disk_reads s' = r_disk_reads s + 1"
      "r_num_frames s' = r_num_frames s"
    by blast
  have "r_frames s' ! i \<noteq> None" if "i < length (r_frames s)" "r_frames s ! i \<noteq> None" for i
    using that r(3) by (cases "i = nat f") simp_all
  with r show ?thesis
    unfolding rand_step_access by (intro exI [of _ s']) simp
next
  case (Some f)
  from rand_access_hit [OF inv Some, of rnd "access_is_write a"] obtain en where
    r: "rand_access rnd s (access_page a) (access_is_write a) =
          Some (Inr (s\<lparr>r_frames := (r_frames s)[nat f :=
             Some (en\<lparr>entry_dirty := (if access_is_write a then True else entry_dirty en)\<rparr>)]\<rparr>))"
       "rand_inv (s\<lparr>r_frames := (r_frames s)[nat f :=
             Some (en\<lparr>entry_dirty := (if access_is_write a then True else entry_dirty en)\<rparr>)]\<rparr>)"
    by blast
  have "((r_frames s)[nat f := x]) ! i \<noteq> None"
    if "i < length (r_frames s)" "r_frames s ! i \<noteq> None" "x \<noteq> None" for i x
    using that by (cases "i = nat f") simp_all
  with r show ?thesis
    unfolding rand_step_access by simp
qed

lemma rand_run_append:
  "rand_run rnd s (xs @ ys) =
     (case rand_run rnd s xs of
        None \<Rightarrow> None
      | Some (Inl e) \<Rightarrow> Some (Inl e)
      | Some (Inr s') \<Rightarrow> rand_run rnd s' ys)"
  by (induction xs arbitrary: s) (auto split: option.splits sum.splits)

lemma rand_run_ok:
  assumes "rand_inv s"
  shows "\<exists>s'. rand_run rnd s tr = Some (Inr s') \<and> rand_inv s' \<and>
           r_num_frames s' = r_num_frames s \<and>
           r_disk_reads s' - r_page_faults s' = r_disk_reads s - r_page_faults s \<and>
           length (r_frames s') = length (r_frames s) \<and>
           (\<forall>i<length (r_frames s). r_frames s ! i \<noteq> None \<longrightarrow> r_frames s' ! i \<noteq> None)"
  using assms
proof (induction tr arbitrary: s)
  case Nil
  then show ?case by simp
next
  case (Cons a tr)
  from rand_step_ok [OF Cons.prems, of rnd a] obtain s1 where
    s1: "rand_step rnd s a = Some (Inr s1)" "rand_inv s1"
      "r_num_frames s1 = r_num_frames s"
      "r_disk_reads s1 - r_page_faults s1 = r_disk_reads s - r_page_faults s"
      "length (r_frames s1) = length (r_frames s)"
      "\<forall>i<length (r_frames s). r_frames s ! i \<noteq> None \<longrightarrow> r_frames s1 ! i \<noteq> None"
    by blast
  from Cons.IH [OF s1(2)] obtain s' where
    s': "rand_run rnd s1 tr = Some (Inr s')" "rand_inv s'"
      "r_num_frames s' = r_num_frames s1"
      "r_disk_reads s' - r_page_faults s' = r_disk_reads s1 - r_page_faults s1"
      "length (r_frames s') = length (r_frames s1)"
      "\<forall>i<length (r_frames s1). r_frames s1 ! i \<noteq> None \<longrightarrow> r_frames s' ! i \<noteq> None"
    by blast
  from s1 s' show ?case
    by (intro exI [of _ s']) simp
qed

lemma rand_nonpos_step:
  assumes "frames \<le> 0" "rand_init frames = Inr s"
  shows "rand_step rnd s a = Some (Inl IndexError)"
proof -
  have s: "r_frames s = []" "r_page_to_frame s = Map.empty" "r_free s = []"
    "r_num_frames s = frames"
    using assms by (auto simp: rand_init_def)
  have "rand_take_frame rnd (s\<lparr>r_page_faults := x\<rparr>) = Some (Inl IndexError)" for x
    using s assms(1) by (simp add: rand_take_frame_def choose_victim_def rand_evict_def)
  then show ?thesis
    unfolding rand_step_access using s by (simp add: rand_access_def)
qed

lemma rand_nonpos_run:
  assumes "frames \<le> 0" "rand_init frames = Inr s" "rand_run rnd s tr = Some (Inr s')"
  shows "tr = [] \<and> s' = s"
proof (cases tr)
  case Nil
  with assms(3) show ?thesis by simp
next
  case (Cons a as)
  with assms(3) rand_nonpos_step [OF assms(1,2), of rnd a] show ?thesis by simp
qed

lemma rand_trace_reach:
  assumes "rand_trace rnd frames tr = Some (Inr s)"
  shows "(1 \<le> frames \<and> rand_inv s \<and> r_num_frames s = frames \<and>
            r_disk_reads s = r_page_faults s) \<or>
         (frames \<le> 0 \<and> tr = [] \<and> rand_init frames = Inr s)"
proof -
  obtain s0 where s0: "rand_init frames = Inr s0"
    by (simp add: rand_init_def)
  with assms have run: "rand_run rnd s0 tr = Some (Inr s)"
    by (simp add: rand_trace_def)
  show ?thesis
  proof (cases "1 \<le> frames")
    case True
    from rand_run_ok [OF rand_init_inv [OF True s0], of rnd tr] run s0 True
    show ?thesis by (auto simp: rand_init_def)
  next
    case False
    then have "frames \<le> 0" by simp
    from rand_nonpos_run [OF this s0 run] this s0 show ?thesis by simp
  qed
qed

lemma rand_trace_total:
  assumes "1 \<le> frames"
  shows "\<exists>s. rand_trace rnd frames tr = Some (Inr s)"
proof -
  obtain s0 where s0: "rand_init frames = Inr s0"
    by (simp add: rand_init_def)
  from rand_run_ok [OF rand_init_inv [OF assms s0], of rnd tr] s0
  show ?thesis by (auto simp: rand_trace_def)
qed

lemma rand_trace_append:
  "rand_trace rnd frames (xs @ ys) =
     (case rand_trace rnd frames xs of
        None \<Rightarrow> None
      | Some (Inl e) \<Rightarrow> Some (Inl e)
      | Some (Inr s) \<Rightarrow> rand_run rnd s ys)"
  by (simp add: rand_trace_def rand_init_def rand_run_append)

section \<open>Further facts used below\<close>

lemma occupied_rand_pages: "occupied (rand_pages fr) = occupied fr"
  by (induction fr) (auto simp: occupied_def rand_pages_def)

lemma find_lru_victim_fields:
  "find_lru_victim (s\<lparr>l_current_time := t, l_page_faults := a, l_disk_reads := b\<rparr>) =
   find_lru_victim s"
  by (simp add: find_lru_victim_def)

section \<open>Hits\<close>

lemma clock_hit_frame:
  assumes inv: "clock_inv s" and hit: "c_page_to_frame s (access_page a) = Some f"
  shows "\<exists>s'. clock_step s a = Some (Inr s') \<and> clock_inv s' \<and>
           c_page_faults s' = c_page_faults s \<and> c_disk_reads s' = c_disk_reads s \<and>
           c_disk_writes s' = c_disk_writes s \<and>
           c_frame_page s' = c_frame_page s \<and> c_page_to_frame s' = c_page_to_frame s \<and>
           c_hand s' = c_hand s \<and> c_frames_capacity s' = c_frames_capacity s \<and>
           (\<forall>i. i \<noteq> nat f \<longrightarrow> c_dirty s' ! i = c_dirty s ! i \<and> c_ref s' ! i = c_ref s ! i)"
  using clock_access_hit [OF inv hit, of "access_is_write a"]
  unfolding clock_step_access by simp

lemma clock_repeat_reads:
  assumes "clock_inv s" "c_page_to_frame s p = Some f"
  shows "\<exists>s'. clock_run s (replicate n (Read p)) = Some (Inr s') \<and> clock_inv s' \<and>
           c_page_to_frame s' = c_page_to_frame s \<and>
           c_page_faults s' = c_page_faults s \<and> c_disk_reads s' = c_disk_reads s \<and>
           c_disk_writes s' = c_disk_writes s"
  using assms
proof (induction n arbitrary: s)
  case 0
  then show ?case by simp
next
  case (Suc n)
  from clock_hit_frame [OF Suc.prems(1), of "Read p" f] Suc.prems(2) obtain s1 where
    s1: "clock_step s (Read p) = Some (Inr s1)" "clock_inv s1"
      "c_page_faults s1 = c_page_faults s" "c_disk_reads s1 = c_disk_reads s"
      "c_disk_writes s1 = c_disk_writes s" "c_page_to_frame s1 = c_page_to_frame s"
    by auto
  from Suc.IH [OF s1(2)] s1(6) Suc.prems(2) obtain s' where
    s': "clock_run s1 (replicate n (Read p)) = Some (Inr s')" "clock_inv s'"
      "c_page_to_frame s' = c_page_to_frame s1"
      "c_page_faults s' = c_page_faults s1" "c_disk_reads s' = c_disk_reads s1"
      "c_disk_writes s' = c_disk_writes s1"
    by auto
  from s1 s' show ?case
    by (intro exI [of _ s']) simp
qed

lemma lru_hit_frame:
  assumes inv: "lru_inv s" and hit: "l_page_table s (access_page a) = Some f"
  shows "\<exists>s'. lru_step s a = Inr s' \<and> lru_inv s' \<and>
           l_page_faults s' = l_page_faults s \<and> l_disk_reads s' = l_disk_reads s \<and>
           l_disk_writes s' = l_disk_writes s \<and>
           l_frame_table s' = l_frame_table s \<and> l_page_table s' = l_page_table s \<and>
           l_free_frames s' = l_free_frames s \<and> l_frames s' = l_frames s \<and>
           l_current_time s' = l_current_time s + 1 \<and>
           (\<forall>i. i \<noteq> nat f \<longrightarrow> l_dirty_bits s' ! i = l_dirty_bits s ! i \<and>
                              l_access_time s' ! i = l_access_time s ! i)"
  using lru_step_hit [OF inv hit] by simp

lemma lru_repeat_reads:
  assumes "lru_inv s" "l_page_table s p = Some f"
  shows "\<exists>s'. lru_run s (replicate n (Read p)) = Inr s' \<and> lru_inv s' \<and>
           l_page_table s' = l_page_table s \<and>
           l_page_faults s' = l_page_faults s \<and> l_disk_reads s' = l_disk_reads s \<and>
           l_disk_writes s' = l_disk_writes s"
  using assms
proof (induction n arbitrary: s)
  case 0
  then show ?case by simp
next
  case (Suc n)
  from lru_hit_frame [OF Suc.prems(1), of "Read p" f] Suc.prems(2) obtain s1 where
    s1: "lru_step s (Read p) = Inr s1" "lru_inv s1"
      "l_page_faults s1 = l_page_faults s" "l_disk_reads s1 = l_disk_reads s"
      "l_disk_writes s1 = l_disk_writes s" "l_page_table s1 = l_page_table s"
    by auto
  from Suc.IH [OF s1(2)] s1(6) Suc.prems(2) obtain s' where
    s': "lru_run s1 (replicate n (Read p)) = Inr s'" "lru_inv s'"
      "l_page_table s' = l_page_table s1"
      "l_page_faults s' = l_page_faults s1" "l_disk_reads s' = l_disk_reads s1"
      "l_disk_writes s' = l_disk_writes s1"
    by auto
  from s1 s' show ?case
    by (intro exI [of _ s']) simp
qed

lemma rand_hit_frame:
  assumes inv: "rand_inv s" and hit: "r_page_to_frame s (access_page a) = Some f"
  shows "\<exists>s'. rand_step rnd s a = Some (Inr s') \<and> rand_inv s' \<and>
           r_page_faults s' = r_page_faults s \<and> r_disk_reads s' = r_disk_reads s \<and>
           r_disk_writes s' = r_disk_writes s \<and>
           map (map_option entry_page) (r_frames s') = map (map_option entry_page) (r_frames s) \<and>
           r_page_to_frame s' = r_page_to_frame s \<and>
           r_free s' = r_free s \<and> r_num_frames s' = r_num_frames s \<and>
           r_draws s' = r_draws s \<and>
           (\<forall>i. i \<noteq> nat f \<longrightarrow> r_frames s' ! i = r_frames s ! i)"
proof -
  from rand_access_hit [OF inv hit, of rnd "access_is_write a"] obtain en where
    r: "rand_access rnd s (access_page a) (access_is_write a) =
          Some (Inr (s\<lparr>r_frames := (r_frames s)[nat f :=
             Some (en\<lparr>entry_dirty := (if access_is_write a then True else entry_dirty en)\<rparr>)]\<rparr>))"
       "rand_inv (s\<lparr>r_frames := (r_frames s)[nat f :=
             Some (en\<lparr>entry_dirty := (if access_is_write a then True else entry_dirty en)\<rparr>)]\<rparr>)"
       "r_frames s ! nat f = Some en"
    by blast
  have "map (map_option entry_page) ((r_frames s)[nat f := Some (en\<lparr>entry_dirty := d\<rparr>)]) =
        map (map_option entry_page) (r_frames s)" for d
  proof -
    have "(map (map_option entry_page) (r_frames s))[nat f := Some (entry_page en)] =
          map (map_option entry_page) (r_frames s)"
    proof (cases "nat f < length (r_frames s)")
      case True
      then have "map (map_option entry_page) (r_frames s) ! nat f = Some (entry_page en)"
        using r(3) by simp
      then show ?thesis by (metis list_update_id)
    next
      case False
      then show ?thesis by (intro list_update_beyond) simp
    qed
    then show ?thesis by (simp add: map_update)
  qed
  with r(1,2) show ?thesis
    unfolding rand_step_access by simp
qed

lemma rand_repeat_reads:
  assumes "rand_inv s" "r_page_to_frame s p = Some f"
  shows "\<exists>s'. rand_run rnd s (replicate n (Read p)) = Some (Inr s') \<and> rand_inv s' \<and>
           r_page_to_frame s' = r_page_to_frame s \<and>
           r_page_faults s' = r_page_faults s \<and> r_disk_reads s' = r_disk_reads s \<and>
           r_disk_writes s' = r_disk_writes s"
  using assms
proof (induction n arbitrary: s)
  case 0
  then show ?case by simp
next
  case (Suc n)
  from rand_hit_frame [OF Suc.prems(1), of "Read p" f rnd] Suc.prems(2) obtain s1 where
    s1: "rand_step rnd s (Read p) = Some (Inr s1)" "rand_inv s1"
      "r_page_faults s1 = r_page_faults s" "r_disk_reads s1 = r_disk_reads s"
      "r_disk_writes s1 = r_disk_writes s" "r_page_to_frame s1 = r_page_to_frame s"
    by auto
  from Suc.IH [OF s1(2)] s1(6) Suc.prems(2) obtain s' where
    s': "rand_run rnd s1 (replicate n (Read p)) = Some (Inr s')" "rand_inv s'"
      "r_page_to_frame s' = r_page_to_frame s1"
      "r_page_faults s' = r_page_faults s1" "r_disk_reads s' = r_disk_reads s1"
      "r_disk_writes s' = r_disk_writes s1"
    by auto
  from s1 s' show ?case
    by (intro exI [of _ s']) simp
qed

lemma clock_reach_hit:
  assumes "clock_trace frames tr = Some (Inr s)" "c_page_to_frame s p = Some f"
  shows "clock_inv s"
  using clock_trace_reach [OF assms(1)] assms(2) by (auto simp: clock_init_def)

lemma lru_reach_hit:
  assumes "lru_trace frames tr = Inr s" "l_page_table s p = Some f"
  shows "lru_inv s"
  using lru_trace_reach [OF assms(1)] assms(2) by (auto simp: lru_init_def)

lemma rand_reach_hit:
  assumes "rand_trace rnd frames tr = Some (Inr s)" "r_page_to_frame s p = Some f"
  shows "rand_inv s"
  using rand_trace_reach [OF assms(1)] assms(2) by (auto simp: rand_init_def)

section \<open>Occupancy over the lifetime of an engine\<close>

lemma occupied_kept:
  assumes "length fp' = length fp" "\<forall>i<length fp. fp ! i \<noteq> None \<longrightarrow> fp' ! i \<noteq> None"
  shows "occupied fp \<le> occupied fp'"
    and "occupied fp = length fp \<longrightarrow> occupied fp' = length fp'"
proof -
  show "occupied fp \<le> occupied fp'" by (rule occupied_mono [OF assms])
  show "occupied fp = length fp \<longrightarrow> occupied fp' = length fp'"
    unfolding occupied_full using assms by simp
qed

lemma clock_later_state:
  assumes "clock_trace frames tr = Some (Inr s)" "clock_trace frames (tr @ tr') = Some (Inr s')"
  shows "length (c_frame_page s') = length (c_frame_page s) \<and>
         (\<forall>i<length (c_frame_page s). c_frame_page s ! i \<noteq> None \<longrightarrow> c_frame_page s' ! i \<noteq> None)"
proof -
  have run: "clock_run s tr' = Some (Inr s')"
    using assms by (simp add: clock_trace_append)
  from clock_trace_reach [OF assms(1)] show ?thesis
  proof
    assume "1 \<le> frames \<and> clock_inv s \<and> c_frames_capacity s = frames \<and>
            c_disk_reads s = c_page_faults s"
    then have "clock_inv s" by simp
    from clock_run_ok [OF this, of tr'] run show ?thesis by auto
  next
    assume a: "frames \<le> 0 \<and> tr = [] \<and> clock_init frames = Inr s"
    then have "s' = s" using clock_nonpos_run [OF _ _ run] by blast
    then show ?thesis by simp
  qed
qed

lemma lru_later_state:
  assumes "lru_trace frames tr = Inr s" "lru_trace frames (tr @ tr') = Inr s'"
  shows "length (l_frame_table s') = length (l_frame_table s) \<and>
         (\<forall>i<length (l_frame_table s). l_frame_table s ! i \<noteq> None \<longrightarrow> l_frame_table s' ! i \<noteq> None)"
proof -
  have run: "lru_run s tr' = Inr s'"
    using assms by (simp add: lru_trace_append)
  from lru_trace_reach [OF assms(1)] show ?thesis
  proof
    assume "1 \<le> frames \<and> lru_inv s \<and> l_frames s = frames \<and> l_disk_reads s = l_page_faults s"
    then have "lru_inv s" by simp
    from lru_run_ok [OF this, of tr'] run show ?thesis by auto
  next
    assume a: "frames \<le> 0 \<and> tr = [] \<and> lru_init frames = Inr s"
    then have "s' = s" using lru_nonpos_run [OF _ _ run] by blast
    then show ?thesis by simp
  qed
qed

lemma rand_later_state:
  assumes "rand_trace rnd frames tr = Some (Inr s)"
    "rand_trace rnd frames (tr @ tr') = Some (Inr s')"
  shows "length (r_frames s') = length (r_frames s) \<and>
         (\<forall>i<length (r_frames s). r_frames s ! i \<noteq> None \<longrightarrow> r_frames s' ! i \<noteq> None)"
proof -
  have run: "rand_run rnd s tr' = Some (Inr s')"
    using assms by (simp add: rand_trace_append)
  from rand_trace_reach [OF assms(1)] show ?thesis
  proof
    assume "1 \<le> frames \<and> rand_inv s \<and> r_num_frames s = frames \<and>
            r_disk_reads s = r_page_faults s"
    then have "rand_inv s" by simp
    from rand_run_ok [OF this, of rnd tr'] run show ?thesis by auto
  next
    assume a: "frames \<le> 0 \<and> tr = [] \<and> rand_init frames = Inr s"
    then have "s' = s" using rand_nonpos_run [OF _ _ run] by blast
    then show ?thesis by simp
  qed
qed

section \<open>Properties of the Clock sweep\<close>

text \<open>
  C2.  Clock engine, capacity at least 1: in every state reached by a trace, when a fault
  finds no free frame (\<open>_find_free_frame\<close> returns None after the fault is counted), the
  sweep of \<open>_evict_clock\<close> returns a victim, and it has inspected at most
  \<open>2 * capacity\<close> frames when it does.
\<close>

theorem clock_sweep_terminates_within_two_passes:
  assumes cap: "1 \<le> frames"
    and reach: "clock_trace frames tr = Some (Inr s)"
    and full: "find_free_frame (s\<lparr>c_page_faults := c_page_faults s + 1,
                                   c_disk_reads := c_disk_reads s + 1\<rparr>) = Inr None"
  shows "\<exists>v n s'. evict_sweep (s\<lparr>c_page_faults := c_page_faults s + 1,
                                  c_disk_reads := c_disk_reads s + 1\<rparr>) 0 = Some (Inr (v, n, s'))
           \<and> n \<le> 2 * nat frames
           \<and> evict_clock (s\<lparr>c_page_faults := c_page_faults s + 1,
                              c_disk_reads := c_disk_reads s + 1\<rparr>) = Some (Inr (v, s'))"
proof -
  let ?s1 = "s\<lparr>c_page_faults := c_page_faults s + 1, c_disk_reads := c_disk_reads s + 1\<rparr>"
  from clock_trace_reach [OF reach] cap have inv: "clock_inv s" and c: "c_frames_capacity s = frames"
    by auto
  have inv1: "clock_inv ?s1" using inv by (simp add: clock_inv_counters)
  have occ: "\<forall>i<length (c_frame_page ?s1). c_frame_page ?s1 ! i \<noteq> None"
    using find_free_frame_None [OF inv1 full] by blast
  from evict_sweep_total [OF inv1 occ, of 0] obtain v n s' where
    r: "evict_sweep ?s1 0 = Some (Inr (v, n, s'))" "n \<le> 0 + nonzero_refs (c_ref ?s1) + 1"
    by blast
  have "nonzero_refs (c_ref ?s1) \<le> nat frames"
    using nonzero_refs_le [of "c_ref ?s1"] clock_inv_lengths [OF inv1] c by auto
  with r(2) cap have "n \<le> 2 * nat frames" by simp
  moreover have "evict_clock ?s1 = Some (Inr (v, s'))"
    using r(1) by (simp add: evict_clock_def)
  ultimately show ?thesis using r(1) by blast
qed

theorem clock_sweep_terminates_within_two_passes_witness:
  "\<exists>s. clock_trace 2 [Read 1, Write 2] = Some (Inr s) \<and>
       find_free_frame (s\<lparr>c_page_faults := c_page_faults s + 1,
                           c_disk_reads := c_disk_reads s + 1\<rparr>) = Inr None \<and>
       (\<exists>v n s'. evict_sweep (s\<lparr>c_page_faults := c_page_faults s + 1,
                                  c_disk_reads := c_disk_reads s + 1\<rparr>) 0 = Some (Inr (v, n, s'))
           \<and> n \<le> 2 * nat 2
           \<and> evict_clock (s\<lparr>c_page_faults := c_page_faults s + 1,
                              c_disk_reads := c_disk_reads s + 1\<rparr>) = Some (Inr (v, s')))"
proof -
  have cap: "(1::int) \<le> 2" by simp
  have ev: "case clock_trace 2 [Read 1, Write 2] of
              Some (Inr s) \<Rightarrow>
                find_free_frame (s\<lparr>c_page_faults := c_page_faults s + 1,
                                    c_disk_reads := c_disk_reads s + 1\<rparr>) = Inr None
            | _ \<Rightarrow> False"
    by code_simp
  then obtain s where reach: "clock_trace 2 [Read 1, Write 2] = Some (Inr s)"
    and full: "find_free_frame (s\<lparr>c_page_faults := c_page_faults s + 1,
                                   c_disk_reads := c_disk_reads s + 1\<rparr>) = Inr None"
    by (auto split: option.splits sum.splits)
  from clock_sweep_terminates_within_two_passes [OF cap reach full] reach full
  show ?thesis by blast
qed

text \<open>
  C6.  Clock engine: in every state reached by a trace, when a fault finds no free frame,
  \<open>_evict_clock\<close> returns a victim frame that held a page, and in the state it returns
  (before \<open>_install\<close>) that frame is empty, its dirty flag is False, its reference bit is 0
  and the page it held is no longer in \<open>page_to_frame\<close>.
\<close>

theorem clock_evicted_frame_is_cleared:
  assumes cap: "1 \<le> frames"
    and reach: "clock_trace frames tr = Some (Inr s)"
    and full: "find_free_frame (s\<lparr>c_page_faults := c_page_faults s + 1,
                                   c_disk_reads := c_disk_reads s + 1\<rparr>) = Inr None"
  shows "\<exists>v s' p. evict_clock (s\<lparr>c_page_faults := c_page_faults s + 1,
                                  c_disk_reads := c_disk_reads s + 1\<rparr>) = Some (Inr (v, s'))
           \<and> 0 \<le> v \<and> v < frames
           \<and> c_frame_page s ! nat v = Some p
           \<and> c_frame_page s' ! nat v = None
           \<and> c_dirty s' ! nat v = False
           \<and> c_ref s' ! nat v = 0
           \<and> c_page_to_frame s' p = None"
proof -
  let ?s1 = "s\<lparr>c_page_faults := c_page_faults s + 1, c_disk_reads := c_disk_reads s + 1\<rparr>"
  from clock_trace_reach [OF reach] cap have inv: "clock_inv s" and c: "c_frames_capacity s = frames"
    by auto
  have inv1: "clock_inv ?s1" using inv by (simp add: clock_inv_counters)
  have occ: "\<forall>i<length (c_frame_page ?s1). c_frame_page ?s1 ! i \<noteq> None"
    using find_free_frame_None [OF inv1 full] by blast
  from evict_sweep_total [OF inv1 occ, of 0] obtain v n s' where
    r: "evict_sweep ?s1 0 = Some (Inr (v, n, s'))" and ev: "evicted ?s1 v s'"
    by blast
  have ec: "evict_clock ?s1 = Some (Inr (v, s'))"
    using r by (simp add: evict_clock_def)
  from ev obtain p where
    v: "0 \<le> v" "v < c_frames_capacity s" and
    p: "c_frame_page s ! nat v = Some p" "c_page_to_frame s' = (c_page_to_frame s)(p := None)" and
    e: "c_frame_page s' = (c_frame_page s)[nat v := None]"
       "c_dirty s' = (c_dirty s)[nat v := False]" "c_ref s' ! nat v = 0"
    by (auto simp: evicted_def)
  note vlen = clock_inv_nat [OF inv v]
  have "c_frame_page s' ! nat v = None" "c_dirty s' ! nat v = False" "c_page_to_frame s' p = None"
    using e p vlen by simp_all
  with ec v c p(1) e(3) show ?thesis by blast
qed

theorem clock_evicted_frame_is_cleared_witness:
  "\<exists>s. clock_trace 2 [Write 1, Read 2, Read 1] = Some (Inr s) \<and>
       find_free_frame (s\<lparr>c_page_faults := c_page_faults s + 1,
                           c_disk_reads := c_disk_reads s + 1\<rparr>) = Inr None \<and>
       (\<exists>v s' p. evict_clock (s\<lparr>c_page_faults := c_page_faults s + 1,
                                  c_disk_reads := c_disk_reads s + 1\<rparr>) = Some (Inr (v, s'))
           \<and> 0 \<le> v \<and> v < 2
           \<and> c_frame_page s ! nat v = Some p
           \<and> c_frame_page s' ! nat v = None
           \<and> c_dirty s' ! nat v = False
           \<and> c_ref s' ! nat v = 0
           \<and> c_page_to_frame s' p = None)"
proof -
  have cap: "(1::int) \<le> 2" by simp
  have ev: "case clock_trace 2 [Write 1, Read 2, Read 1] of
              Some (Inr s) \<Rightarrow>
                find_free_frame (s\<lparr>c_page_faults := c_page_faults s + 1,
                                    c_disk_reads := c_disk_reads s + 1\<rparr>) = Inr None
            | _ \<Rightarrow> False"
    by code_simp
  then obtain s where reach: "clock_trace 2 [Write 1, Read 2, Read 1] = Some (Inr s)"
    and full: "find_free_frame (s\<lparr>c_page_faults := c_page_faults s + 1,
                                   c_disk_reads := c_disk_reads s + 1\<rparr>) = Inr None"
    by (auto split: option.splits sum.splits)
  from clock_evicted_frame_is_cleared [OF cap reach full] reach full
  show ?thesis by blast
qed

section \<open>Properties of the counters and of residency\<close>

text \<open>
  C1.  For each engine (Clock, LRU, Random), every capacity of at least 1 and every finite
  trace of reads and writes (and, for Random, every random source), the trace is processed
  without an exception, and afterwards \<open>get_total_disk_reads()\<close> equals
  \<open>get_total_page_faults()\<close>.
\<close>

theorem disk_reads_equal_page_faults:
  assumes "1 \<le> frames"
  shows "(\<exists>s. clock_trace frames tr = Some (Inr s) \<and>
              clock_get_total_disk_reads s = clock_get_total_page_faults s) \<and>
         (\<exists>s. lru_trace frames tr = Inr s \<and>
              lru_get_total_disk_reads s = lru_get_total_page_faults s) \<and>
         (\<exists>s. rand_trace rnd frames tr = Some (Inr s) \<and>
              rand_get_total_disk_reads s = rand_get_total_page_faults s)"
proof (intro conjI)
  from clock_trace_total [OF assms, of tr] obtain s where s: "clock_trace frames tr = Some (Inr s)"
    by blast
  from clock_trace_reach [OF s] assms have "c_disk_reads s = c_page_faults s" by auto
  with s show "\<exists>s. clock_trace frames tr = Some (Inr s) \<and>
              clock_get_total_disk_reads s = clock_get_total_page_faults s"
    by (auto simp: clock_get_total_disk_reads_def clock_get_total_page_faults_def)
next
  from lru_trace_total [OF assms, of tr] obtain s where s: "lru_trace frames tr = Inr s"
    by blast
  from lru_trace_reach [OF s] assms have "l_disk_reads s = l_page_faults s" by auto
  with s show "\<exists>s. lru_trace frames tr = Inr s \<and>
              lru_get_total_disk_reads s = lru_get_total_page_faults s"
    by (auto simp: lru_get_total_disk_reads_def lru_get_total_page_faults_def)
next
  from rand_trace_total [OF assms, of rnd tr] obtain s where
    s: "rand_trace rnd frames tr = Some (Inr s)"
    by blast
  from rand_trace_reach [OF s] assms have "r_disk_reads s = r_page_faults s" by auto
  with s show "\<exists>s. rand_trace rnd frames tr = Some (Inr s) \<and>
              rand_get_total_disk_reads s = rand_get_total_page_faults s"
    by (auto simp: rand_get_total_disk_reads_def rand_get_total_page_faults_def)
qed

theorem disk_reads_equal_page_faults_witness:
  "(1::int) \<le> 2 \<and>
   (\<exists>s. clock_trace 2 [Read 1, Write 2, Read 3, Read 1] = Some (Inr s) \<and>
        clock_get_total_disk_reads s = clock_get_total_page_faults s) \<and>
   (\<exists>s. lru_trace 2 [Read 1, Write 2, Read 3, Read 1] = Inr s \<and>
        lru_get_total_disk_reads s = lru_get_total_page_faults s) \<and>
   (\<exists>s. rand_trace (\<lambda>k. int k) 2 [Read 1, Write 2, Read 3, Read 1] = Some (Inr s) \<and>
        rand_get_total_disk_reads s = rand_get_total_page_faults s)"
proof -
  have h: "(1::int) \<le> 2" by simp
  from disk_reads_equal_page_faults [OF h, of "[Read 1, Write 2, Read 3, Read 1]" "\<lambda>k. int k"] h
  show ?thesis by simp
qed

text \<open>
  C8.  For each engine, every capacity of at least 1, every trace and every prefix
  \<open>take n tr\<close> of it: the prefix is processed without an exception, the capacity is the
  one given at construction, and the number of resident pages, which is the number of
  occupied frames, is at most the capacity.
\<close>

theorem resident_pages_within_capacity:
  assumes "1 \<le> frames"
  shows "(\<exists>s. clock_trace frames (take n tr) = Some (Inr s) \<and>
              c_frames_capacity s = frames \<and>
              finite (dom (c_page_to_frame s)) \<and>
              card (dom (c_page_to_frame s)) = occupied (c_frame_page s) \<and>
              occupied (c_frame_page s) \<le> nat frames) \<and>
         (\<exists>s. lru_trace frames (take n tr) = Inr s \<and>
              l_frames s = frames \<and>
              finite (dom (l_page_table s)) \<and>
              card (dom (l_page_table s)) = occupied (l_frame_table s) \<and>
              occupied (l_frame_table s) \<le> nat frames) \<and>
         (\<exists>s. rand_trace rnd frames (take n tr) = Some (Inr s) \<and>
              r_num_frames s = frames \<and>
              finite (dom (r_page_to_frame s)) \<and>
              card (dom (r_page_to_frame s)) = occupied (r_frames s) \<and>
              occupied (r_frames s) \<le> nat frames)"
proof (intro conjI)
  from clock_trace_total [OF assms, of "take n tr"] obtain s where
    s: "clock_trace frames (take n tr) = Some (Inr s)" by blast
  from clock_trace_reach [OF s] assms have inv: "clock_inv s" and c: "c_frames_capacity s = frames"
    by auto
  note d = resident_ok_dom [OF clock_inv_resident [OF inv]]
  have "occupied (c_frame_page s) \<le> nat frames"
    using occupied_le_length [of "c_frame_page s"] clock_inv_lengths [OF inv] c by auto
  with s c d show "\<exists>s. clock_trace frames (take n tr) = Some (Inr s) \<and>
              c_frames_capacity s = frames \<and>
              finite (dom (c_page_to_frame s)) \<and>
              card (dom (c_page_to_frame s)) = occupied (c_frame_page s) \<and>
              occupied (c_frame_page s) \<le> nat frames"
    by blast
next
  from lru_trace_total [OF assms, of "take n tr"] obtain s where
    s: "lru_trace frames (take n tr) = Inr s" by blast
  from lru_trace_reach [OF s] assms have inv: "lru_inv s" and c: "l_frames s = frames"
    by auto
  note d = resident_ok_dom [OF lru_inv_resident [OF inv]]
  have "occupied (l_frame_table s) \<le> nat frames"
    using occupied_le_length [of "l_frame_table s"] lru_inv_lengths [OF inv] c by auto
  with s c d show "\<exists>s. lru_trace frames (take n tr) = Inr s \<and>
              l_frames s = frames \<and>
              finite (dom (l_page_table s)) \<and>
              card (dom (l_page_table s)) = occupied (l_frame_table s) \<and>
              occupied (l_frame_table s) \<le> nat frames"
    by blast
next
  from rand_trace_total [OF assms, of rnd "take n tr"] obtain s where
    s: "rand_trace rnd frames (take n tr) = Some (Inr s)" by blast
  from rand_trace_reach [OF s] assms have inv: "rand_inv s" and c: "r_num_frames s = frames"
    by auto
  note d = resident_ok_dom [OF rand_inv_resident [OF inv], unfolded occupied_rand_pages]
  have "occupied (r_frames s) \<le> nat frames"
    using occupied_le_length [of "r_frames s"] rand_inv_lengths [OF inv] c by auto
  with s c d show "\<exists>s. rand_trace rnd frames (take n tr) = Some (Inr s) \<and>
              r_num_frames s = frames \<and>
              finite (dom (r_page_to_frame s)) \<and>
              card (dom (r_page_to_frame s)) = occupied (r_frames s) \<and>
              occupied (r_frames s) \<le> nat frames"
    by blast
qed

theorem resident_pages_within_capacity_witness:
  "(1::int) \<le> 2 \<and>
   (\<exists>s. clock_trace 2 (take 3 [Read 1, Write 2, Read 3, Read 1]) = Some (Inr s) \<and>
        c_frames_capacity s = 2 \<and>
        finite (dom (c_page_to_frame s)) \<and>
        card (dom (c_page_to_frame s)) = occupied (c_frame_page s) \<and>
        occupied (c_frame_page s) \<le> nat 2) \<and>
   (\<exists>s. lru_trace 2 (take 3 [Read 1, Write 2, Read 3, Read 1]) = Inr s \<and>
        l_frames s = 2 \<and>
        finite (dom (l_page_table s)) \<and>
        card (dom (l_page_table s)) = occupied (l_frame_table s) \<and>
        occupied (l_frame_table s) \<le> nat 2) \<and>
   (\<exists>s. rand_trace (\<lambda>k. int k) 2 (take 3 [Read 1, Write 2, Read 3, Read 1]) = Some (Inr s) \<and>
        r_num_frames s = 2 \<and>
        finite (dom (r_page_to_frame s)) \<and>
        card (dom (r_page_to_frame s)) = occupied (r_frames s) \<and>
        occupied (r_frames s) \<le> nat 2)"
proof -
  have h: "(1::int) \<le> 2" by simp
  from resident_pages_within_capacity
         [OF h, of 3 "[Read 1, Write 2, Read 3, Read 1]" "\<lambda>k. int k"] h
  show ?thesis by blast
qed

section \<open>Properties of the LRU victim and of the logical clock\<close>

text \<open>
  C3.  LRU engine, capacity at least 1: in every state reached by a trace, when a fault
  finds the free list empty, \<open>_find_lru_victim\<close> (called after the fault has been counted
  and the clock advanced) returns an occupied frame whose stamp is at most the stamp of
  every occupied frame and strictly below the stamp of every occupied frame of lower index.
\<close>

theorem lru_victim_has_least_stamp:
  assumes cap: "1 \<le> frames"
    and reach: "lru_trace frames tr = Inr s"
    and full: "l_free_frames s = []"
  shows "\<exists>v. find_lru_victim (s\<lparr>l_current_time := l_current_time s + 2,
                                  l_page_faults := l_page_faults s + 1,
                                  l_disk_reads := l_disk_reads s + 1\<rparr>) = Inr v \<and>
             0 \<le> v \<and> v < frames \<and>
             l_frame_table s ! nat v \<noteq> None \<and>
             (\<forall>i < nat frames. l_frame_table s ! i \<noteq> None
                 \<longrightarrow> l_access_time s ! nat v \<le> l_access_time s ! i) \<and>
             (\<forall>i < nat v. l_frame_table s ! i \<noteq> None
                 \<longrightarrow> l_access_time s ! nat v < l_access_time s ! i)"
proof -
  from lru_trace_reach [OF reach] cap have inv: "lru_inv s" and c: "l_frames s = frames"
    by auto
  from lru_full_victim [OF inv full] c obtain v where
    v: "find_lru_victim s = Inr v" "0 \<le> v" "v < frames"
       "lru_least (l_frame_table s) (l_access_time s) (nat frames) (nat v)"
    by auto
  from v(4) have
    "l_frame_table s ! nat v \<noteq> None"
    "\<forall>i < nat frames. l_frame_table s ! i \<noteq> None
         \<longrightarrow> l_access_time s ! nat v \<le> l_access_time s ! i"
    "\<forall>i < nat v. l_frame_table s ! i \<noteq> None
         \<longrightarrow> l_access_time s ! nat v < l_access_time s ! i"
    unfolding lru_least_def by blast+
  with v(1-3) show ?thesis
    unfolding find_lru_victim_fields by blast
qed

theorem lru_victim_has_least_stamp_witness:
  "\<exists>s. lru_trace 2 [Read 1, Read 2, Read 1] = Inr s \<and> l_free_frames s = [] \<and>
       (\<exists>v. find_lru_victim (s\<lparr>l_current_time := l_current_time s + 2,
                                 l_page_faults := l_page_faults s + 1,
                                 l_disk_reads := l_disk_reads s + 1\<rparr>) = Inr v \<and>
             0 \<le> v \<and> v < 2 \<and>
             l_frame_table s ! nat v \<noteq> None \<and>
             (\<forall>i < nat 2. l_frame_table s ! i \<noteq> None
                 \<longrightarrow> l_access_time s ! nat v \<le> l_access_time s ! i) \<and>
             (\<forall>i < nat v. l_frame_table s ! i \<noteq> None
                 \<longrightarrow> l_access_time s ! nat v < l_access_time s ! i))"
proof -
  have cap: "(1::int) \<le> 2" by simp
  have ev: "case lru_trace 2 [Read 1, Read 2, Read 1] of
              Inr s \<Rightarrow> l_free_frames s = []
            | Inl e \<Rightarrow> False"
    by code_simp
  then obtain s where reach: "lru_trace 2 [Read 1, Read 2, Read 1] = Inr s"
    and full: "l_free_frames s = []"
    by (auto split: sum.splits)
  from lru_victim_has_least_stamp [OF cap reach full] reach full
  show ?thesis by blast
qed

text \<open>
  C5.  The claim is that every \<open>read_memory\<close> or \<open>write_memory\<close> of the LRU engine
  advances \<open>current_time\<close> by one.  On a fault the code advances it twice: once in
  \<open>read_memory\<close>/\<open>write_memory\<close> and once more in \<open>_handle_page_fault\<close>.  Here is the
  first read of a fresh engine with two frames.
\<close>

theorem lru_fault_advances_clock_twice:
  "\<exists>s s'. lru_init 2 = Inr s \<and> lru_read_memory s 1 = Inr s' \<and>
          l_current_time s = 0 \<and> l_current_time s' = 2"
  by (simp add: lru_init_def lru_read_memory_def handle_page_fault_def lru_take_frame_def
                py_range_def py_repeat_def Let_def list_set_def py_index_def
                upt_conv_Cons)

section \<open>Construction, and the victim of the Random engine\<close>

text \<open>
  C4.  The claim is that each constructor rejects a capacity of 0 or less.  No constructor
  checks its argument: with capacity 0 each of them returns an engine.
\<close>

theorem constructors_accept_capacity_zero:
  "\<not> isl (clock_init 0) \<and> \<not> isl (lru_init 0) \<and> \<not> isl (rand_init 0)"
  by (simp add: clock_init_def lru_init_def rand_init_def)

text \<open>
  C4, as the code has it.  For a capacity of 0 or less each constructor returns an engine
  without frames, and the first \<open>read_memory\<close> or \<open>write_memory\<close> on it raises IndexError:
  the misconfiguration shows at the first access, not at construction.
\<close>

theorem nonpositive_capacity_fails_at_first_access:
  assumes "frames \<le> 0"
  shows "(\<exists>s. clock_init frames = Inr s \<and> c_frame_page s = [] \<and>
              clock_step s a = Some (Inl IndexError)) \<and>
         (\<exists>s. lru_init frames = Inr s \<and> l_frame_table s = [] \<and>
              lru_step s a = Inl IndexError) \<and>
         (\<exists>s. rand_init frames = Inr s \<and> r_frames s = [] \<and>
              rand_step rnd s a = Some (Inl IndexError))"
proof (intro conjI)
  obtain s where s: "clock_init frames = Inr s" by (simp add: clock_init_def)
  then have "c_frame_page s = []" using assms by (auto simp: clock_init_def)
  with s clock_nonpos_step [OF assms s, of a]
  show "\<exists>s. clock_init frames = Inr s \<and> c_frame_page s = [] \<and>
              clock_step s a = Some (Inl IndexError)"
    by blast
next
  obtain s where s: "lru_init frames = Inr s" by (simp add: lru_init_def)
  then have "l_frame_table s = []" using assms by (auto simp: lru_init_def)
  with s lru_nonpos_step [OF assms s, of a]
  show "\<exists>s. lru_init frames = Inr s \<and> l_frame_table s = [] \<and>
              lru_step s a = Inl IndexError"
    by blast
next
  obtain s where s: "rand_init frames = Inr s" by (simp add: rand_init_def)
  then have "r_frames s = []" using assms by (auto simp: rand_init_def)
  with s rand_nonpos_step [OF assms s, of rnd a]
  show "\<exists>s. rand_init frames = Inr s \<and> r_frames s = [] \<and>
              rand_step rnd s a = Some (Inl IndexError)"
    by blast
qed

theorem nonpositive_capacity_fails_at_first_access_witness:
  "(-1::int) \<le> 0 \<and>
   (\<exists>s. clock_init (-1) = Inr s \<and> c_frame_page s = [] \<and>
        clock_step s (Write 7) = Some (Inl IndexError)) \<and>
   (\<exists>s. lru_init (-1) = Inr s \<and> l_frame_table s = [] \<and>
        lru_step s (Write 7) = Inl IndexError) \<and>
   (\<exists>s. rand_init (-1) = Inr s \<and> r_frames s = [] \<and>
        rand_step (\<lambda>k. int k) s (Write 7) = Some (Inl IndexError))"
proof -
  have h: "(-1::int) \<le> 0" by simp
  from nonpositive_capacity_fails_at_first_access [OF h, of "Write 7" "\<lambda>k. int k"] h
  show ?thesis by blast
qed

text \<open>
  C7.  Random engine, capacity at least 1, any random source: in every state reached by
  a trace, when a fault finds the free list empty, \<open>_choose_victim\<close> returns, and the
  frame it returns is occupied.  With capacity 1 it returns frame 0 without drawing a
  random number, whatever the random source is.
\<close>

theorem random_victim_is_occupied:
  assumes cap: "1 \<le> frames"
    and reach: "rand_trace rnd frames tr = Some (Inr s)"
    and full: "r_free s = []"
  shows "(\<exists>idx s'. choose_victim rnd (s\<lparr>r_page_faults := r_page_faults s + 1\<rparr>)
                       = Some (Inr (idx, s')) \<and>
                    0 \<le> idx \<and> idx < frames \<and> r_frames s ! nat idx \<noteq> None) \<and>
         (frames = 1 \<longrightarrow>
            (\<forall>rnd'. choose_victim rnd' (s\<lparr>r_page_faults := r_page_faults s + 1\<rparr>)
                       = Some (Inr (0, s\<lparr>r_page_faults := r_page_faults s + 1\<rparr>))))"
proof -
  let ?s1 = "s\<lparr>r_page_faults := r_page_faults s + 1\<rparr>"
  from rand_trace_reach [OF reach] cap have inv: "rand_inv s" and c: "r_num_frames s = frames"
    by auto
  have inv1: "rand_inv ?s1" using inv by (simp add: rand_inv_def)
  have full1: "r_free ?s1 = []" using full by simp
  have a: "\<exists>idx s'. choose_victim rnd ?s1 = Some (Inr (idx, s')) \<and>
                    0 \<le> idx \<and> idx < frames \<and> r_frames s ! nat idx \<noteq> None"
    using choose_victim_full [OF inv1 full1, of rnd] c by auto
  have b: "choose_victim rnd' ?s1 = Some (Inr (0, ?s1))" if "frames = 1" for rnd'
  proof -
    from choose_victim_full [OF inv1 full1, of rnd'] that c obtain d where
      "choose_victim rnd' ?s1 = Some (Inr (0, ?s1\<lparr>r_draws := d\<rparr>))" "d = r_draws ?s1"
      by auto
    then show ?thesis by simp
  qed
  from a b show ?thesis by blast
qed

theorem random_victim_is_occupied_witness:
  "\<exists>s. rand_trace (\<lambda>k. 5) 1 [Write 1] = Some (Inr s) \<and> r_free s = [] \<and>
       (\<exists>idx s'. choose_victim (\<lambda>k. 5) (s\<lparr>r_page_faults := r_page_faults s + 1\<rparr>)
                       = Some (Inr (idx, s')) \<and>
                    0 \<le> idx \<and> idx < 1 \<and> r_frames s ! nat idx \<noteq> None) \<and>
       (\<forall>rnd'. choose_victim rnd' (s\<lparr>r_page_faults := r_page_faults s + 1\<rparr>)
                       = Some (Inr (0, s\<lparr>r_page_faults := r_page_faults s + 1\<rparr>)))"
proof -
  have cap: "(1::int) \<le> 1" by simp
  have ev: "case rand_trace (\<lambda>k. 5) 1 [Write 1] of
              Some (Inr s) \<Rightarrow> r_free s = []
            | _ \<Rightarrow> False"
    by code_simp
  then obtain s where reach: "rand_trace (\<lambda>k. 5) 1 [Write 1] = Some (Inr s)"
    and full: "r_free s = []"
    by (auto split: option.splits sum.splits)
  note r = random_victim_is_occupied [OF cap reach full]
  from r have a: "\<exists>idx s'. choose_victim (\<lambda>k. 5) (s\<lparr>r_page_faults := r_page_faults s + 1\<rparr>)
                       = Some (Inr (idx, s')) \<and>
                    0 \<le> idx \<and> idx < 1 \<and> r_frames s ! nat idx \<noteq> None"
    by (rule conjunct1)
  from r have b: "\<forall>rnd'. choose_victim rnd' (s\<lparr>r_page_faults := r_page_faults s + 1\<rparr>)
                       = Some (Inr (0, s\<lparr>r_page_faults := r_page_faults s + 1\<rparr>))"
    by simp
  from reach full a b show ?thesis by blast
qed

section \<open>Accesses to resident pages\<close>

text \<open>
  C9.  For each engine, in every state reached by a trace, an access to a resident page
  returns without an exception and leaves the three counters, the page held by every
  frame and the page table unchanged (and the clock hand, the free list and the random
  source's position); the dirty flag and the reference bit or stamp of every frame other
  than the hit frame are unchanged, and the LRU clock advances by one.  Reading the same
  resident page \<open>n\<close> times leaves the three counters unchanged.
\<close>

theorem hit_changes_only_hit_frame:
  "(clock_trace frames tr = Some (Inr cs) \<longrightarrow> c_page_to_frame cs (access_page a) = Some cf \<longrightarrow>
      (\<exists>s'. clock_step cs a = Some (Inr s') \<and>
         clock_get_total_page_faults s' = clock_get_total_page_faults cs \<and>
         clock_get_total_disk_reads s' = clock_get_total_disk_reads cs \<and>
         clock_get_total_disk_writes s' = clock_get_total_disk_writes cs \<and>
         c_frame_page s' = c_frame_page cs \<and> c_page_to_frame s' = c_page_to_frame cs \<and>
         c_hand s' = c_hand cs \<and> c_frames_capacity s' = c_frames_capacity cs \<and>
         (\<forall>i. i \<noteq> nat cf \<longrightarrow> c_dirty s' ! i = c_dirty cs ! i \<and> c_ref s' ! i = c_ref cs ! i)) \<and>
      (\<exists>s'. clock_run cs (replicate n (Read (access_page a))) = Some (Inr s') \<and>
         clock_get_total_page_faults s' = clock_get_total_page_faults cs \<and>
         clock_get_total_disk_reads s' = clock_get_total_disk_reads cs \<and>
         clock_get_total_disk_writes s' = clock_get_total_disk_writes cs)) \<and>
   (lru_trace frames tr = Inr ls \<longrightarrow> l_page_table ls (access_page a) = Some lf \<longrightarrow>
      (\<exists>s'. lru_step ls a = Inr s' \<and>
         lru_get_total_page_faults s' = lru_get_total_page_faults ls \<and>
         lru_get_total_disk_reads s' = lru_get_total_disk_reads ls \<and>
         lru_get_total_disk_writes s' = lru_get_total_disk_writes ls \<and>
         l_frame_table s' = l_frame_table ls \<and> l_page_table s' = l_page_table ls \<and>
         l_free_frames s' = l_free_frames ls \<and> l_frames s' = l_frames ls \<and>
         l_current_time s' = l_current_time ls + 1 \<and>
         (\<forall>i. i \<noteq> nat lf \<longrightarrow> l_dirty_bits s' ! i = l_dirty_bits ls ! i \<and>
                              l_access_time s' ! i = l_access_time ls ! i)) \<and>
      (\<exists>s'. lru_run ls (replicate n (Read (access_page a))) = Inr s' \<and>
         lru_get_total_page_faults s' = lru_get_total_page_faults ls \<and>
         lru_get_total_disk_reads s' = lru_get_total_disk_reads ls \<and>
         lru_get_total_disk_writes s' = lru_get_total_disk_writes ls)) \<and>
   (rand_trace rnd frames tr = Some (Inr rs) \<longrightarrow> r_page_to_frame rs (access_page a) = Some rf \<longrightarrow>
      (\<exists>s'. rand_step rnd rs a = Some (Inr s') \<and>
         rand_get_total_page_faults s' = rand_get_total_page_faults rs \<and>
         rand_get_total_disk_reads s' = rand_get_total_disk_reads rs \<and>
         rand_get_total_disk_writes s' = rand_get_total_disk_writes rs \<and>
         map (map_option entry_page) (r_frames s') = map (map_option entry_page) (r_frames rs) \<and>
         r_page_to_frame s' = r_page_to_frame rs \<and>
         r_free s' = r_free rs \<and> r_num_frames s' = r_num_frames rs \<and>
         r_draws s' = r_draws rs \<and>
         (\<forall>i. i \<noteq> nat rf \<longrightarrow> r_frames s' ! i = r_frames rs ! i)) \<and>
      (\<exists>s'. rand_run rnd rs (replicate n (Read (access_page a))) = Some (Inr s') \<and>
         rand_get_total_page_faults s' = rand_get_total_page_faults rs \<and>
         rand_get_total_disk_reads s' = rand_get_total_disk_reads rs \<and>
         rand_get_total_disk_writes s' = rand_get_total_disk_writes rs))"
proof (intro conjI impI)
  assume r: "clock_trace frames tr = Some (Inr cs)" and h: "c_page_to_frame cs (access_page a) = Some cf"
  note inv = clock_reach_hit [OF r h]
  from clock_hit_frame [OF inv h]
  show "\<exists>s'. clock_step cs a = Some (Inr s') \<and>
         clock_get_total_page_faults s' = clock_get_total_page_faults cs \<and>
         clock_get_total_disk_reads s' = clock_get_total_disk_reads cs \<and>
         clock_get_total_disk_writes s' = clock_get_total_disk_writes cs \<and>
         c_frame_page s' = c_frame_page cs \<and> c_page_to_frame s' = c_page_to_frame cs \<and>
         c_hand s' = c_hand cs \<and> c_frames_capacity s' = c_frames_capacity cs \<and>
         (\<forall>i. i \<noteq> nat cf \<longrightarrow> c_dirty s' ! i = c_dirty cs ! i \<and> c_ref s' ! i = c_ref cs ! i)"
    unfolding clock_get_total_page_faults_def clock_get_total_disk_reads_def
      clock_get_total_disk_writes_def by blast
  from clock_repeat_reads [OF inv h, of n]
  show "\<exists>s'. clock_run cs (replicate n (Read (access_page a))) = Some (Inr s') \<and>
         clock_get_total_page_faults s' = clock_get_total_page_faults cs \<and>
         clock_get_total_disk_reads s' = clock_get_total_disk_reads cs \<and>
         clock_get_total_disk_writes s' = clock_get_total_disk_writes cs"
    unfolding clock_get_total_page_faults_def clock_get_total_disk_reads_def
      clock_get_total_disk_writes_def by blast
next
  assume r: "lru_trace frames tr = Inr ls" and h: "l_page_table ls (access_page a) = Some lf"
  note inv = lru_reach_hit [OF r h]
  from lru_hit_frame [OF inv h]
  show "\<exists>s'. lru_step ls a = Inr s' \<and>
         lru_get_total_page_faults s' = lru_get_total_page_faults ls \<and>
         lru_get_total_disk_reads s' = lru_get_total_disk_reads ls \<and>
         lru_get_total_disk_writes s' = lru_get_total_disk_writes ls \<and>
         l_frame_table s' = l_frame_table ls \<and> l_page_table s' = l_page_table ls \<and>
         l_free_frames s' = l_free_frames ls \<and> l_frames s' = l_frames ls \<and>
         l_current_time s' = l_current_time ls + 1 \<and>
         (\<forall>i. i \<noteq> nat lf \<longrightarrow> l_dirty_bits s' ! i = l_dirty_bits ls ! i \<and>
                              l_access_time s' ! i = l_access_time ls ! i)"
    unfolding lru_get_total_page_faults_def lru_get_total_disk_reads_def
      lru_get_total_disk_writes_def by blast
  from lru_repeat_reads [OF inv h, of n]
  show "\<exists>s'. lru_run ls (replicate n (Read (access_page a))) = Inr s' \<and>
         lru_get_total_page_faults s' = lru_get_total_page_faults ls \<and>
         lru_get_total_disk_reads s' = lru_get_total_disk_reads ls \<and>
         lru_get_total_disk_writes s' = lru_get_total_disk_writes ls"
    unfolding lru_get_total_page_faults_def lru_get_total_disk_reads_def
      lru_get_total_disk_writes_def by blast
next
  assume r: "rand_trace rnd frames tr = Some (Inr rs)"
    and h: "r_page_to_frame rs (access_page a) = Some rf"
  note inv = rand_reach_hit [OF r h]
  from rand_hit_frame [OF inv h, of rnd]
  show "\<exists>s'. rand_step rnd rs a = Some (Inr s') \<and>
         rand_get_total_page_faults s' = rand_get_total_page_faults rs \<and>
         rand_get_total_disk_reads s' = rand_get_total_disk_reads rs \<and>
         rand_get_total_disk_writes s' = rand_get_total_disk_writes rs \<and>
         map (map_option entry_page) (r_frames s') = map (map_option entry_page) (r_frames rs) \<and>
         r_page_to_frame s' = r_page_to_frame rs \<and>
         r_free s' = r_free rs \<and> r_num_frames s' = r_num_frames rs \<and>
         r_draws s' = r_draws rs \<and>
         (\<forall>i. i \<noteq> nat rf \<longrightarrow> r_frames s' ! i = r_frames rs ! i)"
    unfolding rand_get_total_page_faults_def rand_get_total_disk_reads_def
      rand_get_total_disk_writes_def by blast
  from rand_repeat_reads [OF inv h, of rnd n]
  show "\<exists>s'. rand_run rnd rs (replicate n (Read (access_page a))) = Some (Inr s') \<and>
         rand_get_total_page_faults s' = rand_get_total_page_faults rs \<and>
         rand_get_total_disk_reads s' = rand_get_total_disk_reads rs \<and>
         rand_get_total_disk_writes s' = rand_get_total_disk_writes rs"
    unfolding rand_get_total_page_faults_def rand_get_total_disk_reads_def
      rand_get_total_disk_writes_def by blast
qed

theorem hit_changes_only_hit_frame_witness:
  "(\<exists>cs. clock_trace 2 [Write 1, Read 2] = Some (Inr cs) \<and>
      c_page_to_frame cs (access_page (Write 1)) = Some 0 \<and>
      (\<exists>s'. clock_step cs (Write 1) = Some (Inr s') \<and>
         clock_get_total_page_faults s' = clock_get_total_page_faults cs \<and>
         clock_get_total_disk_reads s' = clock_get_total_disk_reads cs \<and>
         clock_get_total_disk_writes s' = clock_get_total_disk_writes cs \<and>
         c_frame_page s' = c_frame_page cs \<and> c_page_to_frame s' = c_page_to_frame cs \<and>
         c_hand s' = c_hand cs \<and> c_frames_capacity s' = c_frames_capacity cs \<and>
         (\<forall>i. i \<noteq> nat 0 \<longrightarrow> c_dirty s' ! i = c_dirty cs ! i \<and> c_ref s' ! i = c_ref cs ! i)) \<and>
      (\<exists>s'. clock_run cs (replicate 3 (Read (access_page (Write 1)))) = Some (Inr s') \<and>
         clock_get_total_page_faults s' = clock_get_total_page_faults cs \<and>
         clock_get_total_disk_reads s' = clock_get_total_disk_reads cs \<and>
         clock_get_total_disk_writes s' = clock_get_total_disk_writes cs)) \<and>
   (\<exists>ls. lru_trace 2 [Write 1, Read 2] = Inr ls \<and>
      l_page_table ls (access_page (Write 1)) = Some 0 \<and>
      (\<exists>s'. lru_step ls (Write 1) = Inr s' \<and>
         lru_get_total_page_faults s' = lru_get_total_page_faults ls \<and>
         lru_get_total_disk_reads s' = lru_get_total_disk_reads ls \<and>
         lru_get_total_disk_writes s' = lru_get_total_disk_writes ls \<and>
         l_frame_table s' = l_frame_table ls \<and> l_page_table s' = l_page_table ls \<and>
         l_free_frames s' = l_free_frames ls \<and> l_frames s' = l_frames ls \<and>
         l_current_time s' = l_current_time ls + 1 \<and>
         (\<forall>i. i \<noteq> nat 0 \<longrightarrow> l_dirty_bits s' ! i = l_dirty_bits ls ! i \<and>
                              l_access_time s' ! i = l_access_time ls ! i)) \<and>
      (\<exists>s'. lru_run ls (replicate 3 (Read (access_page (Write 1)))) = Inr s' \<and>
         lru_get_total_page_faults s' = lru_get_total_page_faults ls \<and>
         lru_get_total_disk_reads s' = lru_get_total_disk_reads ls \<and>
         lru_get_total_disk_writes s' = lru_get_total_disk_writes ls)) \<and>
   (\<exists>rs. rand_trace (\<lambda>k. int k) 2 [Write 1, Read 2] = Some (Inr rs) \<and>
      r_page_to_frame rs (access_page (Write 1)) = Some 0 \<and>
      (\<exists>s'. rand_step (\<lambda>k. int k) rs (Write 1) = Some (Inr s') \<and>
         rand_get_total_page_faults s' = rand_get_total_page_faults rs \<and>
         rand_get_total_disk_reads s' = rand_get_total_disk_reads rs \<and>
         rand_get_total_disk_writes s' = rand_get_total_disk_writes rs \<and>
         map (map_option entry_page) (r_frames s') = map (map_option entry_page) (r_frames rs) \<and>
         r_page_to_frame s' = r_page_to_frame rs \<and>
         r_free s' = r_free rs \<and> r_num_frames s' = r_num_frames rs \<and>
         r_draws s' = r_draws rs \<and>
         (\<forall>i. i \<noteq> nat 0 \<longrightarrow> r_frames s' ! i = r_frames rs ! i)) \<and>
      (\<exists>s'. rand_run (\<lambda>k. int k) rs (replicate 3 (Read (access_page (Write 1)))) = Some (Inr s') \<and>
         rand_get_total_page_faults s' = rand_get_total_page_faults rs \<and>
         rand_get_total_disk_reads s' = rand_get_total_disk_reads rs \<and>
         rand_get_total_disk_writes s' = rand_get_total_disk_writes rs))"
proof -
  have "case clock_trace 2 [Write 1, Read 2] of
          Some (Inr s) \<Rightarrow> c_page_to_frame s (access_page (Write 1)) = Some 0
        | _ \<Rightarrow> False"
    by code_simp
  then obtain cs where c: "clock_trace 2 [Write 1, Read 2] = Some (Inr cs)"
      "c_page_to_frame cs (access_page (Write 1)) = Some 0"
    by (auto split: option.splits sum.splits)
  have "case lru_trace 2 [Write 1, Read 2] of
          Inr s \<Rightarrow> l_page_table s (access_page (Write 1)) = Some 0
        | Inl e \<Rightarrow> False"
    by code_simp
  then obtain ls where l: "lru_trace 2 [Write 1, Read 2] = Inr ls"
      "l_page_table ls (access_page (Write 1)) = Some 0"
    by (auto split: sum.splits)
  have "case rand_trace (\<lambda>k. int k) 2 [Write 1, Read 2] of
          Some (Inr s) \<Rightarrow> r_page_to_frame s (access_page (Write 1)) = Some 0
        | _ \<Rightarrow> False"
    by code_simp
  then obtain rs where r: "rand_trace (\<lambda>k. int k) 2 [Write 1, Read 2] = Some (Inr rs)"
      "r_page_to_frame rs (access_page (Write 1)) = Some 0"
    by (auto split: option.splits sum.splits)
  note t = hit_changes_only_hit_frame
      [where frames = 2 and tr = "[Write 1, Read 2]" and a = "Write 1" and n = 3
         and rnd = "\<lambda>k. int k" and cs = cs and ls = ls and rs = rs
         and cf = 0 and lf = 0 and rf = 0]
  from t c have "\<exists>cs. clock_trace 2 [Write 1, Read 2] = Some (Inr cs) \<and>
      c_page_to_frame cs (access_page (Write 1)) = Some 0 \<and>
      (\<exists>s'. clock_step cs (Write 1) = Some (Inr s') \<and>
         clock_get_total_page_faults s' = clock_get_total_page_faults cs \<and>
         clock_get_total_disk_reads s' = clock_get_total_disk_reads cs \<and>
         clock_get_total_disk_writes s' = clock_get_total_disk_writes cs \<and>
         c_frame_page s' = c_frame_page cs \<and> c_page_to_frame s' = c_page_to_frame cs \<and>
         c_hand s' = c_hand cs \<and> c_frames_capacity s' = c_frames_capacity cs \<and>
         (\<forall>i. i \<noteq> nat 0 \<longrightarrow> c_dirty s' ! i = c_dirty cs ! i \<and> c_ref s' ! i = c_ref cs ! i)) \<and>
      (\<exists>s'. clock_run cs (replicate 3 (Read (access_page (Write 1)))) = Some (Inr s') \<and>
         clock_get_total_page_faults s' = clock_get_total_page_faults cs \<and>
         clock_get_total_disk_reads s' = clock_get_total_disk_reads cs \<and>
         clock_get_total_disk_writes s' = clock_get_total_disk_writes cs)" by blast
  moreover from t l have "\<exists>ls. lru_trace 2 [Write 1, Read 2] = Inr ls \<and>
      l_page_table ls (access_page (Write 1)) = Some 0 \<and>
      (\<exists>s'. lru_step ls (Write 1) = Inr s' \<and>
         lru_get_total_page_faults s' = lru_get_total_page_faults ls \<and>
         lru_get_total_disk_reads s' = lru_get_total_disk_reads ls \<and>
         lru_get_total_disk_writes s' = lru_get_total_disk_writes ls \<and>
         l_frame_table s' = l_frame_table ls \<and> l_page_table s' = l_page_table ls \<and>
         l_free_frames s' = l_free_frames ls \<and> l_frames s' = l_frames ls \<and>
         l_current_time s' = l_current_time ls + 1 \<and>
         (\<forall>i. i \<noteq> nat 0 \<longrightarrow> l_dirty_bits s' ! i = l_dirty_bits ls ! i \<and>
                              l_access_time s' ! i = l_access_time ls ! i)) \<and>
      (\<exists>s'. lru_run ls (replicate 3 (Read (access_page (Write 1)))) = Inr s' \<and>
         lru_get_total_page_faults s' = lru_get_total_page_faults ls \<and>
         lru_get_total_disk_reads s' = lru_get_total_disk_reads ls \<and>
         lru_get_total_disk_writes s' = lru_get_total_disk_writes ls)" by blast
  moreover from t r have "\<exists>rs. rand_trace (\<lambda>k. int k) 2 [Write 1, Read 2] = Some (Inr rs) \<and>
      r_page_to_frame rs (access_page (Write 1)) = Some 0 \<and>
      (\<exists>s'. rand_step (\<lambda>k. int k) rs (Write 1) = Some (Inr s') \<and>
         rand_get_total_page_faults s' = rand_get_total_page_faults rs \<and>
         rand_get_total_disk_reads s' = rand_get_total_disk_reads rs \<and>
         rand_get_total_disk_writes s' = rand_get_total_disk_writes rs \<and>
         map (map_option entry_page) (r_frames s') = map (map_option entry_page) (r_frames rs) \<and>
         r_page_to_frame s' = r_page_to_frame rs \<and>
         r_free s' = r_free rs \<and> r_num_frames s' = r_num_frames rs \<and>
         r_draws s' = r_draws rs \<and>
         (\<forall>i. i \<noteq> nat 0 \<longrightarrow> r_frames s' ! i = r_frames rs ! i)) \<and>
      (\<exists>s'. rand_run (\<lambda>k. int k) rs (replicate 3 (Read (access_page (Write 1)))) = Some (Inr s') \<and>
         rand_get_total_page_faults s' = rand_get_total_page_faults rs \<and>
         rand_get_total_disk_reads s' = rand_get_total_disk_reads rs \<and>
         rand_get_total_disk_writes s' = rand_get_total_disk_writes rs)" by blast
  ultimately show ?thesis by (intro conjI)
qed

section \<open>Occupancy between accesses\<close>

text \<open>
  C10.  For each engine, if a trace \<open>tr\<close> leaves the engine in state \<open>s\<close> and a longer
  trace \<open>tr @ tr'\<close> leaves it in state \<open>s'\<close>, then every frame occupied in \<open>s\<close> is occupied
  in \<open>s'\<close>, the number of occupied frames has not decreased, and if all frames were
  occupied in \<open>s\<close> they all are in \<open>s'\<close>.
\<close>

theorem occupied_frames_never_decrease:
  "(clock_trace frames tr = Some (Inr cs) \<longrightarrow> clock_trace frames (tr @ tr') = Some (Inr cs') \<longrightarrow>
      (\<forall>i<length (c_frame_page cs). c_frame_page cs ! i \<noteq> None \<longrightarrow> c_frame_page cs' ! i \<noteq> None) \<and>
      occupied (c_frame_page cs) \<le> occupied (c_frame_page cs') \<and>
      (occupied (c_frame_page cs) = length (c_frame_page cs)
         \<longrightarrow> occupied (c_frame_page cs') = length (c_frame_page cs'))) \<and>
   (lru_trace frames tr = Inr ls \<longrightarrow> lru_trace frames (tr @ tr') = Inr ls' \<longrightarrow>
      (\<forall>i<length (l_frame_table ls). l_frame_table ls ! i \<noteq> None \<longrightarrow> l_frame_table ls' ! i \<noteq> None) \<and>
      occupied (l_frame_table ls) \<le> occupied (l_frame_table ls') \<and>
      (occupied (l_frame_table ls) = length (l_frame_table ls)
         \<longrightarrow> occupied (l_frame_table ls') = length (l_frame_table ls'))) \<and>
   (rand_trace rnd frames tr = Some (Inr rs) \<longrightarrow>
    rand_trace rnd frames (tr @ tr') = Some (Inr rs') \<longrightarrow>
      (\<forall>i<length (r_frames rs). r_frames rs ! i \<noteq> None \<longrightarrow> r_frames rs' ! i \<noteq> None) \<and>
      occupied (r_frames rs) \<le> occupied (r_frames rs') \<and>
      (occupied (r_frames rs) = length (r_frames rs)
         \<longrightarrow> occupied (r_frames rs') = length (r_frames rs')))"
proof (intro conjI impI)
  assume a: "clock_trace frames tr = Some (Inr cs)" "clock_trace frames (tr @ tr') = Some (Inr cs')"
  from clock_later_state [OF a] have
    k: "length (c_frame_page cs') = length (c_frame_page cs)"
       "\<forall>i<length (c_frame_page cs). c_frame_page cs ! i \<noteq> None \<longrightarrow> c_frame_page cs' ! i \<noteq> None"
    by simp_all
  show "\<forall>i<length (c_frame_page cs). c_frame_page cs ! i \<noteq> None \<longrightarrow> c_frame_page cs' ! i \<noteq> None"
    by (rule k(2))
  show "occupied (c_frame_page cs) \<le> occupied (c_frame_page cs')"
    by (rule occupied_kept(1) [OF k])
  assume "occupied (c_frame_page cs) = length (c_frame_page cs)"
  with occupied_kept(2) [OF k] show "occupied (c_frame_page cs') = length (c_frame_page cs')"
    by simp
next
  assume a: "lru_trace frames tr = Inr ls" "lru_trace frames (tr @ tr') = Inr ls'"
  from lru_later_state [OF a] have
    k: "length (l_frame_table ls') = length (l_frame_table ls)"
       "\<forall>i<length (l_frame_table ls). l_frame_table ls ! i \<noteq> None \<longrightarrow> l_frame_table ls' ! i \<noteq> None"
    by simp_all
  show "\<forall>i<length (l_frame_table ls). l_frame_table ls ! i \<noteq> None \<longrightarrow> l_frame_table ls' ! i \<noteq> None"
    by (rule k(2))
  show "occupied (l_frame_table ls) \<le> occupied (l_frame_table ls')"
    by (rule occupied_kept(1) [OF k])
  assume "occupied (l_frame_table ls) = length (l_frame_table ls)"
  with occupied_kept(2) [OF k] show "occupied (l_frame_table ls') = length (l_frame_table ls')"
    by simp
next
  assume a: "rand_trace rnd frames tr = Some (Inr rs)"
    "rand_trace rnd frames (tr @ tr') = Some (Inr rs')"
  from rand_later_state [OF a] have
    k: "length (r_frames rs') = length (r_frames rs)"
       "\<forall>i<length (r_frames rs). r_frames rs ! i \<noteq> None \<longrightarrow> r_frames rs' ! i \<noteq> None"
    by simp_all
  show "\<forall>i<length (r_frames rs). r_frames rs ! i \<noteq> None \<longrightarrow> r_frames rs' ! i \<noteq> None"
    by (rule k(2))
  show "occupied (r_frames rs) \<le> occupied (r_frames rs')"
    by (rule occupied_kept(1) [OF k])
  assume "occupied (r_frames rs) = length (r_frames rs)"
  with occupied_kept(2) [OF k] show "occupied (r_frames rs') = length (r_frames rs')"
    by simp
qed

theorem occupied_frames_never_decrease_witness:
  "(\<exists>cs cs'. clock_trace 2 [Read 1, Read 2] = Some (Inr cs) \<and>
      clock_trace 2 ([Read 1, Read 2] @ [Read 3, Write 1]) = Some (Inr cs') \<and>
      occupied (c_frame_page cs) = length (c_frame_page cs) \<and>
      0 < length (c_frame_page cs) \<and> c_frame_page cs ! 0 \<noteq> None \<and>
      c_frame_page cs' ! 0 \<noteq> None \<and>
      occupied (c_frame_page cs) \<le> occupied (c_frame_page cs') \<and>
      occupied (c_frame_page cs') = length (c_frame_page cs')) \<and>
   (\<exists>ls ls'. lru_trace 2 [Read 1, Read 2] = Inr ls \<and>
      lru_trace 2 ([Read 1, Read 2] @ [Read 3, Write 1]) = Inr ls' \<and>
      occupied (l_frame_table ls) = length (l_frame_table ls) \<and>
      0 < length (l_frame_table ls) \<and> l_frame_table ls ! 0 \<noteq> None \<and>
      l_frame_table ls' ! 0 \<noteq> None \<and>
      occupied (l_frame_table ls) \<le> occupied (l_frame_table ls') \<and>
      occupied (l_frame_table ls') = length (l_frame_table ls')) \<and>
   (\<exists>rs rs'. rand_trace (\<lambda>k. int k) 2 [Read 1, Read 2] = Some (Inr rs) \<and>
      rand_trace (\<lambda>k. int k) 2 ([Read 1, Read 2] @ [Read 3, Write 1]) = Some (Inr rs') \<and>
      occupied (r_frames rs) = length (r_frames rs) \<and>
      0 < length (r_frames rs) \<and> r_frames rs ! 0 \<noteq> None \<and>
      r_frames rs' ! 0 \<noteq> None \<and>
      occupied (r_frames rs) \<le> occupied (r_frames rs') \<and>
      occupied (r_frames rs') = length (r_frames rs'))"
proof -
  have "case clock_trace 2 [Read 1, Read 2] of
          Some (Inr s) \<Rightarrow> occupied (c_frame_page s) = length (c_frame_page s) \<and>
                          0 < length (c_frame_page s) \<and> c_frame_page s ! 0 \<noteq> None
        | _ \<Rightarrow> False"
    by code_simp
  then obtain cs where cs: "clock_trace 2 [Read 1, Read 2] = Some (Inr cs)"
      "occupied (c_frame_page cs) = length (c_frame_page cs)"
      "0 < length (c_frame_page cs)" "c_frame_page cs ! 0 \<noteq> None"
    by (auto split: option.splits sum.splits)
  have "case clock_trace 2 ([Read 1, Read 2] @ [Read 3, Write 1]) of
          Some (Inr s) \<Rightarrow> True
        | _ \<Rightarrow> False"
    by code_simp
  then obtain cs' where cs': "clock_trace 2 ([Read 1, Read 2] @ [Read 3, Write 1]) = Some (Inr cs')"
    by (auto split: option.splits sum.splits)
  have "case lru_trace 2 [Read 1, Read 2] of
          Inr s \<Rightarrow> occupied (l_frame_table s) = length (l_frame_table s) \<and>
                          0 < length (l_frame_table s) \<and> l_frame_table s ! 0 \<noteq> None
        | Inl e \<Rightarrow> False"
    by code_simp
  then obtain ls where ls: "lru_trace 2 [Read 1, Read 2] = Inr ls"
      "occupied (l_frame_table ls) = length (l_frame_table ls)"
      "0 < length (l_frame_table ls)" "l_frame_table ls ! 0 \<noteq> None"
    by (auto split: sum.splits)
  have "case lru_trace 2 ([Read 1, Read 2] @ [Read 3, Write 1]) of
          Inr s \<Rightarrow> True
        | Inl e \<Rightarrow> False"
    by code_simp
  then obtain ls' where ls': "lru_trace 2 ([Read 1, Read 2] @ [Read 3, Write 1]) = Inr ls'"
    by (auto split: sum.splits)
  have "case rand_trace (\<lambda>k. int k) 2 [Read 1, Read 2] of
          Some (Inr s) \<Rightarrow> occupied (r_frames s) = length (r_frames s) \<and>
                          0 < length (r_frames s) \<and> r_frames s ! 0 \<noteq> None
        | _ \<Rightarrow> False"
    by code_simp
  then obtain rs where rs: "rand_trace (\<lambda>k. int k) 2 [Read 1, Read 2] = Some (Inr rs)"
      "occupied (r_frames rs) = length (r_frames rs)"
      "0 < length (r_frames rs)" "r_frames rs ! 0 \<noteq> None"
    by (auto split: option.splits sum.splits)
  have "case rand_trace (\<lambda>k. int k) 2 ([Read 1, Read 2] @ [Read 3, Write 1]) of
          Some (Inr s) \<Rightarrow> True
        | _ \<Rightarrow> False"
    by code_simp
  then obtain rs' where rs': "rand_trace (\<lambda>k. int k) 2 ([Read 1, Read 2] @ [Read 3, Write 1]) = Some (Inr rs')"
    by (auto split: option.splits sum.splits)
  note t = occupied_frames_never_decrease
      [where frames = 2 and tr = "[Read 1, Read 2]" and tr' = "[Read 3, Write 1]"
         and rnd = "\<lambda>k. int k" and cs = cs and cs' = cs' and ls = ls and ls' = ls'
         and rs = rs and rs' = rs']
  from t cs cs' have "(\<exists>cs cs'. clock_trace 2 [Read 1, Read 2] = Some (Inr cs) \<and>
      clock_trace 2 ([Read 1, Read 2] @ [Read 3, Write 1]) = Some (Inr cs') \<and>
      occupied (c_frame_page cs) = length (c_frame_page cs) \<and>
      0 < length (c_frame_page cs) \<and> c_frame_page cs ! 0 \<noteq> None \<and>
      c_frame_page cs' ! 0 \<noteq> None \<and>
      occupied (c_frame_page cs) \<le> occupied (c_frame_page cs') \<and>
      occupied (c_frame_page cs') = length (c_frame_page cs'))" by blast
  moreover from t ls ls' have "(\<exists>ls ls'. lru_trace 2 [Read 1, Read 2] = Inr ls \<and>
      lru_trace 2 ([Read 1, Read 2] @ [Read 3, Write 1]) = Inr ls' \<and>
      occupied (l_frame_table ls) = length (l_frame_table ls) \<and>
      0 < length (l_frame_table ls) \<and> l_frame_table ls ! 0 \<noteq> None \<and>
      l_frame_table ls' ! 0 \<noteq> None \<and>
      occupied (l_frame_table ls) \<le> occupied (l_frame_table ls') \<and>
      occupied (l_frame_table ls') = length (l_frame_table ls'))" by blast
  moreover from t rs rs' have "(\<exists>rs rs'. rand_trace (\<lambda>k. int k) 2 [Read 1, Read 2] = Some (Inr rs) \<and>
      rand_trace (\<lambda>k. int k) 2 ([Read 1, Read 2] @ [Read 3, Write 1]) = Some (Inr rs') \<and>
      occupied (r_frames rs) = length (r_frames rs) \<and>
      0 < length (r_frames rs) \<and> r_frames rs ! 0 \<noteq> None \<and>
      r_frames rs' ! 0 \<noteq> None \<and>
      occupied (r_frames rs) \<le> occupied (r_frames rs') \<and>
      occupied (r_frames rs') = length (r_frames rs'))" by blast
  ultimately show ?thesis by (intro conjI)
qed

end
